theory Spec2Isabelle
  imports Main "HOL-Library.Sublist" "HOL-Library.Multiset"
begin

section \<open>Parts, batches and the store they live in\<close>

text \<open>
  The Go code works on message parts by reference: \<^verbatim>\<open>p.Copy()\<close> makes a new part,
  \<^verbatim>\<open>Metadata().Set\<close> edits a part where it stands. The parts therefore live in a store,
  a list of part values indexed by address; a batch (\<^verbatim>\<open>types.Message\<close>) is the ordered
  list of the addresses of its parts. Allocation appends to the store, so the fresh
  address is the store's length.
\<close>

record part =
  content :: string
  metadata :: "string \<rightharpoonup> string"

type_synonym store = "part list"

type_synonym message = "nat list"

text \<open>A batch is well formed in a store when each of its references names an allocated part.\<close>

definition wf_message :: "store \<Rightarrow> message \<Rightarrow> bool" where
  "wf_message s msg = list_all (\<lambda>a. a < length s) msg"

text \<open>
  \<^verbatim>\<open>types.Response\<close>: an object with an \<^verbatim>\<open>Error()\<close> method; a nil response is
  \<open>None\<close> of \<open>response option\<close>.
\<close>

datatype response = Response (Error: "string option")

text \<open>
  Modelled from the spec: \<^verbatim>\<open>response.NewAck\<close> (lib/response is not among the sources):
  the "nothing to forward" signal, "an accepted no-op, not an error".
\<close>

definition NewAck :: response where
  "NewAck = Response None"

text \<open>
  Modelled from the spec: \<^verbatim>\<open>Part.Copy\<close> (lib/message is not among the sources): "a part is
  duplicated so mutations performed by that group's chain never affect the original
  batch or other groups". The duplicate is a new part holding the same payload and the
  same metadata.
\<close>

definition Part_Copy :: "store \<Rightarrow> nat \<Rightarrow> store \<times> nat" where
  "Part_Copy s a = (s @ [s ! a], length s)"

text \<open>
  Modelled from the spec: \<^verbatim>\<open>Message.Copy\<close> (lib/message is not among the sources): a new
  batch of duplicates of the parts, in the same order.
\<close>

definition Message_Copy :: "store \<Rightarrow> message \<Rightarrow> store \<times> message" where
  "Message_Copy s msg = (s @ map (\<lambda>a. s ! a) msg, [length s..<length s + length msg])"

text \<open>
  Modelled from the spec: \<^verbatim>\<open>message.Lock(msg, i)\<close> (lib/message is not among the sources):
  the read-only view a predicate is given, the batch's part values as they stand in the
  store together with the index of the part in question (spec 4.3:
  \<^verbatim>\<open>Check(batch, index) -> bool\<close>, "a pure, side-effect-free read of the batch").
\<close>

definition Lock :: "store \<Rightarrow> message \<Rightarrow> nat \<Rightarrow> part list \<times> nat" where
  "Lock s msg i = (map (\<lambda>a. s ! a) msg, i)"

section \<open>group\_by.go\<close>

text \<open>
  A transform stage (the interface \<^verbatim>\<open>processor.Type\<close>) is a parameter:
  \<^verbatim>\<open>ProcessMessage(msg)\<close> returns batches and a response, and may allocate and edit parts
  on the way, so it takes the store and returns the store it leaves. A stage's private
  state between invocations is not modelled. A predicate (the interface
  \<^verbatim>\<open>condition.Type\<close>) is a parameter too: \<^verbatim>\<open>Check\<close> reads a locked view.
\<close>

type_synonym processor = "store \<Rightarrow> message \<Rightarrow> store \<times> message list \<times> response option"

record group =
  Condition :: "part list \<times> nat \<Rightarrow> bool"
  Processors :: "processor list"

text \<open>
  The inner loop of the \<^verbatim>\<open>msg.Iter\<close> callback,
  \<^verbatim>\<open>for j, group := range g.groups { if group.Condition.Check(...) { ...; return nil } }\<close>:
  the index of the first group whose predicate passes, counting from \<open>j\<close>.
\<close>

fun first_pass :: "group list \<Rightarrow> nat \<Rightarrow> part list \<times> nat \<Rightarrow> nat option" where
  "first_pass [] j v = None"
| "first_pass (g # gs) j v = (if Condition g v then Some j else first_pass gs (Suc j) v)"

text \<open>
  The callback of \<^verbatim>\<open>msg.Iter\<close> for part \<open>p\<close> at index \<open>i\<close>: the state is the store, the
  working batches \<^verbatim>\<open>groups\<close> and the residual batch \<^verbatim>\<open>groupless\<close>.
\<close>

definition route_part ::
  "group list \<Rightarrow> message \<Rightarrow> nat \<Rightarrow> nat \<Rightarrow> store \<times> message list \<times> message
    \<Rightarrow> store \<times> message list \<times> message" where
  "route_part gs msg i p st =
     (case st of (s, groups, groupless) \<Rightarrow>
       (case first_pass gs 0 (Lock s msg i) of
          Some j \<Rightarrow>
            (case Part_Copy s p of (s', c) \<Rightarrow> (s', groups[j := groups ! j @ [c]], groupless))
        | None \<Rightarrow>
            (case Part_Copy s p of (s', c) \<Rightarrow> (s', groups, groupless @ [c]))))"

text \<open>\<^verbatim>\<open>msg.Iter\<close>: the callback on every part, in order, with its index.\<close>

fun Iter ::
  "group list \<Rightarrow> message \<Rightarrow> nat \<Rightarrow> message \<Rightarrow> store \<times> message list \<times> message
    \<Rightarrow> store \<times> message list \<times> message" where
  "Iter gs msg i [] st = st"
| "Iter gs msg i (p # ps) st = Iter gs msg (Suc i) ps (route_part gs msg i p st)"

text \<open>
  Lines 230 to 248: one empty working batch per group, an empty residual batch, then
  the iteration over the input batch.
\<close>

definition route :: "group list \<Rightarrow> store \<Rightarrow> message \<Rightarrow> store \<times> message list \<times> message" where
  "route gs s msg = Iter gs msg 0 msg (s, replicate (length gs) [], [])"

text \<open>
  The innermost loop, \<^verbatim>\<open>for _, m := range resultMsgs\<close>: the stage on each batch of the
  working set in turn; \<^verbatim>\<open>res\<close> is overwritten by every call, the produced batches are
  appended to \<^verbatim>\<open>nextResultMsgs\<close>.
\<close>

fun stage_loop ::
  "processor \<Rightarrow> message list \<Rightarrow> store \<times> response option \<times> message list
    \<Rightarrow> store \<times> response option \<times> message list" where
  "stage_loop P [] st = st"
| "stage_loop P (m # ms) (s, res, nextResultMsgs) =
     (case P s m of (s', rMsgs, res') \<Rightarrow> stage_loop P ms (s', res', nextResultMsgs @ rMsgs))"

text \<open>
  \<^verbatim>\<open>for j := 0; len(resultMsgs) > 0 && j < len(g.groups[i].Processors); j++\<close>, on the
  stages still to run.
\<close>

fun chain_loop ::
  "processor list \<Rightarrow> store \<times> response option \<times> message list
    \<Rightarrow> store \<times> response option \<times> message list" where
  "chain_loop [] st = st"
| "chain_loop (P # Ps) (s, res, resultMsgs) =
     (if length resultMsgs > 0
      then chain_loop Ps (stage_loop P resultMsgs (s, res, []))
      else (s, res, resultMsgs))"

text \<open>Lines 271 to 275: the last response of the group's chain, logged when it is an error.\<close>

definition log_response :: "response option \<Rightarrow> string list \<Rightarrow> string list" where
  "log_response res lg =
     (case res of
        None \<Rightarrow> lg
      | Some r \<Rightarrow> (case Error r of None \<Rightarrow> lg | Some err \<Rightarrow> lg @ [''Processor error: '' @ err]))"

text \<open>
  \<^verbatim>\<open>for i, gmsg := range groups\<close>: the state is the store, the log and \<^verbatim>\<open>msgs\<close>. The
  two lists run in step, \<^verbatim>\<open>g.groups[i]\<close> beside \<^verbatim>\<open>groups[i]\<close>.
\<close>

fun group_loop ::
  "group list \<Rightarrow> message list \<Rightarrow> store \<times> string list \<times> message list
    \<Rightarrow> store \<times> string list \<times> message list" where
  "group_loop (g # gs) (gmsg # groups) (s, lg, msgs) =
     (if length gmsg = 0 then group_loop gs groups (s, lg, msgs)
      else
        (case chain_loop (Processors g) (s, None, [gmsg]) of (s', res, resultMsgs) \<Rightarrow>
           group_loop gs groups
             (s', log_response res lg,
              if length resultMsgs > 0 then msgs @ resultMsgs else msgs)))"
| "group_loop [] groups st = st"
| "group_loop gs [] st = st"

text \<open>
  \<^verbatim>\<open>GroupBy.ProcessMessage\<close>. The result is the store it leaves, the lines it logged,
  the batches and the response. The counters are observational and are left out.
\<close>

definition GroupBy_ProcessMessage ::
  "group list \<Rightarrow> store \<Rightarrow> message \<Rightarrow> store \<times> string list \<times> message list \<times> response option" where
  "GroupBy_ProcessMessage gs s msg =
     (if length msg = 0 then (s, [], [], Some NewAck)
      else
        (case route gs s msg of (s1, groups, groupless) \<Rightarrow>
          (case group_loop gs groups (s1, [], []) of (s2, lg, msgs) \<Rightarrow>
            (let msgs' = (if length groupless > 0 then msgs @ [groupless] else msgs)
             in if length msgs' = 0 then (s2, lg, [], Some NewAck)
                else (s2, lg, msgs', None)))))"

section \<open>The metadata stage\<close>

text \<open>
  Modelled from the spec: \<^verbatim>\<open>types.Metadata\<close> (lib/types and lib/message are not among
  the sources): "an associated mapping of string keys to string values", with
  \<^verbatim>\<open>Set\<close>, \<^verbatim>\<open>Delete\<close> and an \<^verbatim>\<open>Iter\<close> whose callback deletes the keys it picks.
\<close>

definition Metadata_Set :: "string \<Rightarrow> string \<Rightarrow> (string \<rightharpoonup> string) \<Rightarrow> (string \<rightharpoonup> string)" where
  "Metadata_Set k v m = m(k \<mapsto> v)"

definition Metadata_Delete :: "string \<Rightarrow> (string \<rightharpoonup> string) \<Rightarrow> (string \<rightharpoonup> string)" where
  "Metadata_Delete k m = m(k := None)"

definition Metadata_Iter_Delete ::
  "(string \<Rightarrow> bool) \<Rightarrow> (string \<rightharpoonup> string) \<Rightarrow> (string \<rightharpoonup> string)" where
  "Metadata_Iter_Delete pick m = (\<lambda>k. if k \<in> dom m \<and> pick k then Metadata_Delete k m k else m k)"

text \<open>
  The collaborators of the metadata stage that are not among the sources, taken as
  parameters: \<^verbatim>\<open>text.ContainsFunctionVariables\<close>, \<^verbatim>\<open>text.ReplaceFunctionVariables\<close>
  (on the part values of the batch it is given), and the position that
  \<^verbatim>\<open>Message.Get(index)\<close> names in a batch of \<open>n\<close> parts (\<open>None\<close> when the index names
  no part of the batch).
\<close>

record library =
  ContainsFunctionVariables :: "string \<Rightarrow> bool"
  ReplaceFunctionVariables :: "part list \<Rightarrow> string \<Rightarrow> string"
  Get :: "int \<Rightarrow> nat \<Rightarrow> nat option"

text \<open>
  What is assumed of \<^verbatim>\<open>Get\<close>: the position it names lies in the batch, and the index
  \<open>k\<close> of an existing part names that part.
\<close>

definition Get_ok :: "library \<Rightarrow> bool" where
  "Get_ok L \<longleftrightarrow> (\<forall>i n k. Get L i n = Some k \<longrightarrow> k < n) \<and> (\<forall>n k. k < n \<longrightarrow> Get L (int k) n = Some k)"

record MetadataConfig =
  Parts :: "int list"
  Operator :: string
  Key :: string
  Value :: string

text \<open>
  \<^verbatim>\<open>type metadataOperator func(m types.Metadata, value []byte) error\<close>: the operator
  edits the mapping it is given and returns an error or nil; here it returns the edited
  mapping and the error.
\<close>

type_synonym metadataOperator = "(string \<rightharpoonup> string) \<Rightarrow> string \<Rightarrow> (string \<rightharpoonup> string) \<times> string option"

definition newMetadataSetOperator :: "string \<Rightarrow> metadataOperator" where
  "newMetadataSetOperator key = (\<lambda>m v. (Metadata_Set key v m, None))"

definition newMetadataDeleteAllOperator :: "string \<Rightarrow> metadataOperator" where
  "newMetadataDeleteAllOperator key = (\<lambda>m v. (Metadata_Iter_Delete (\<lambda>k. True) m, None))"

definition newMetadataDeletePrefixOperator :: "string \<Rightarrow> metadataOperator" where
  "newMetadataDeletePrefixOperator key = (\<lambda>m v. (Metadata_Iter_Delete (\<lambda>k. prefix v k) m, None))"

definition getMetadataOperator :: "string \<Rightarrow> string \<Rightarrow> string + metadataOperator" where
  "getMetadataOperator opStr key =
     (if opStr = ''set'' then Inr (newMetadataSetOperator key)
      else if opStr = ''delete_all'' then Inr (newMetadataDeleteAllOperator key)
      else if opStr = ''delete_prefix'' then Inr (newMetadataDeletePrefixOperator key)
      else Inl (''operator not recognised: '' @ opStr))"

record Metadata =
  interpolate :: bool
  valueBytes :: string
  operator :: metadataOperator
  parts :: "int list"

definition NewMetadata :: "library \<Rightarrow> MetadataConfig \<Rightarrow> string + Metadata" where
  "NewMetadata L conf =
     (case getMetadataOperator (Operator conf) (Key conf) of
        Inl err \<Rightarrow> Inl err
      | Inr opr \<Rightarrow>
          Inr \<lparr>interpolate = ContainsFunctionVariables L (Value conf),
               valueBytes = Value conf,
               operator = opr,
               parts = Parts conf\<rparr>)"

text \<open>
  The body of \<^verbatim>\<open>for _, index := range targetParts\<close>: the operator on the metadata of
  \<^verbatim>\<open>newMsg.Get(index)\<close>. The operator's error only feeds a counter and a debug line.
\<close>

definition edit_part :: "library \<Rightarrow> Metadata \<Rightarrow> message \<Rightarrow> string \<Rightarrow> store \<Rightarrow> int \<Rightarrow> store" where
  "edit_part L p newMsg v s index =
     (case Get L index (length newMsg) of
        None \<Rightarrow> s
      | Some k \<Rightarrow>
          s[newMsg ! k :=
              (s ! (newMsg ! k))\<lparr>metadata := fst (operator p (metadata (s ! (newMsg ! k))) v)\<rparr>])"

text \<open>\<^verbatim>\<open>Metadata.ProcessMessage\<close>.\<close>

definition Metadata_ProcessMessage :: "library \<Rightarrow> Metadata \<Rightarrow> processor" where
  "Metadata_ProcessMessage L p s msg =
     (case Message_Copy s msg of (s1, newMsg) \<Rightarrow>
       (let v = (if interpolate p
                 then ReplaceFunctionVariables L (map (\<lambda>a. s1 ! a) msg) (valueBytes p)
                 else valueBytes p);
            targetParts = (if length (parts p) = 0 then map int [0..<length newMsg] else parts p);
            s2 = foldl (edit_part L p newMsg v) s1 targetParts
        in (s2, [newMsg], None)))"

section \<open>Where the routing sends each part\<close>

text \<open>
  The destination of the part at index \<open>i\<close> of the input batch: the first group whose
  predicate passes on the locked view of the batch as it stood on entry, or \<open>None\<close>
  for the residual batch.
\<close>

definition destination :: "group list \<Rightarrow> store \<Rightarrow> message \<Rightarrow> nat \<Rightarrow> nat option" where
  "destination gs s msg i = first_pass gs 0 (Lock s msg i)"

text \<open>
  The state of the iteration after the first \<open>i\<close> parts, written out: the duplicate of
  part \<open>k\<close> stands at address \<open>length s + k\<close>, and each working batch lists the
  duplicates of its parts by increasing index.
\<close>

definition routed :: "group list \<Rightarrow> store \<Rightarrow> message \<Rightarrow> nat \<Rightarrow> store \<times> message list \<times> message" where
  "routed gs s msg i =
     (s @ map (\<lambda>a. s ! a) (take i msg),
      map (\<lambda>j. map (\<lambda>k. length s + k) (filter (\<lambda>k. destination gs s msg k = Some j) [0..<i]))
        [0..<length gs],
      map (\<lambda>k. length s + k) (filter (\<lambda>k. destination gs s msg k = None) [0..<i]))"

section \<open>The spec's account of the chain and of the output\<close>

text \<open>
  Spec 4.1, step 5, in its own words: "apply the stage to every batch currently in the
  working set, replacing the working set with the concatenation of all batches each
  application produces". The applications run one after the other, each in the store
  the one before left.
\<close>

definition stage_spec :: "processor \<Rightarrow> store \<times> message list \<Rightarrow> store \<times> message list" where
  "stage_spec P st =
     foldl (\<lambda>(s, out) m. case P s m of (s', produced, r) \<Rightarrow> (s', out @ produced))
       (fst st, []) (snd st)"

text \<open>
  "For each stage in the chain, in order ... If the working set becomes empty, stop
  processing remaining stages for this group early": a fold over the stages in which
  a stage is not applied to an empty working set.
\<close>

definition chain_spec :: "processor list \<Rightarrow> store \<times> message list \<Rightarrow> store \<times> message list" where
  "chain_spec Ps st = foldl (\<lambda>st P. if snd st = [] then st else stage_spec P st) st Ps"

text \<open>
  Steps 4 and 6 without the word "non-empty": for each group in configuration order
  whose working batch is non-empty, the chain over that batch, and every batch it
  leaves, in order.
\<close>

fun collect_spec :: "group list \<Rightarrow> message list \<Rightarrow> store \<Rightarrow> store \<times> message list" where
  "collect_spec (g # gs) (b # bs) s =
     (if b = [] then collect_spec gs bs s
      else
        (case chain_spec (Processors g) (s, [b]) of (s', out) \<Rightarrow>
          (case collect_spec gs bs s' of (s'', rest) \<Rightarrow> (s'', out @ rest))))"
| "collect_spec [] bs s = (s, [])"
| "collect_spec gs [] s = (s, [])"

text \<open>The combined collection of step 6: the groups' batches, then the residual batch if it has parts.\<close>

definition combined :: "group list \<Rightarrow> store \<Rightarrow> message \<Rightarrow> store \<times> message list" where
  "combined gs s msg =
     (case route gs s msg of (s1, groups, groupless) \<Rightarrow>
       (case collect_spec gs groups s1 of (s2, out) \<Rightarrow>
         (s2, out @ (if groupless = [] then [] else [groupless]))))"

text \<open>
  Step 6 as the spec words it: "every non-empty batch surviving step 5 for each group",
  then the residual batch if it has parts.
\<close>

definition combined_nonempty :: "group list \<Rightarrow> store \<Rightarrow> message \<Rightarrow> store \<times> message list" where
  "combined_nonempty gs s msg =
     (case route gs s msg of (s1, groups, groupless) \<Rightarrow>
       (case collect_spec gs groups s1 of (s2, out) \<Rightarrow>
         (s2, filter (\<lambda>b. b \<noteq> []) out @ (if groupless = [] then [] else [groupless]))))"

section \<open>The metadata stage, as documented\<close>

text \<open>
  The value the stage works with: the configured bytes, with the function variables
  replaced against the batch as it stands in store \<open>s\<close> when \<^verbatim>\<open>interpolate\<close> is set.
\<close>

definition resolved_value :: "library \<Rightarrow> Metadata \<Rightarrow> store \<Rightarrow> message \<Rightarrow> string" where
  "resolved_value L p s msg =
     (if interpolate p then ReplaceFunctionVariables L (map (\<lambda>a. s ! a) msg) (valueBytes p)
      else valueBytes p)"

text \<open>
  The value a configuration asks for: its \<^verbatim>\<open>value\<close> field, with the function variables
  replaced against the batch as it stands in store \<open>s\<close> when the field holds any ("a
  value that may embed dynamic substitutions resolved once per invocation against the
  batch being processed").
\<close>

definition configured_value :: "library \<Rightarrow> MetadataConfig \<Rightarrow> store \<Rightarrow> message \<Rightarrow> string" where
  "configured_value L conf s msg =
     (if ContainsFunctionVariables L (Value conf)
      then ReplaceFunctionVariables L (map (\<lambda>a. s ! a) msg) (Value conf)
      else Value conf)"

text \<open>
  The three operations as the stage's description words them: \<^verbatim>\<open>set\<close> "sets the value of a
  metadata key", \<^verbatim>\<open>delete_all\<close> "removes all metadata values from the message",
  \<^verbatim>\<open>delete_prefix\<close> "removes all metadata values from the message where the key is
  prefixed with the value provided".
\<close>

definition configured_operation ::
  "string \<Rightarrow> string \<Rightarrow> string \<Rightarrow> (string \<rightharpoonup> string) \<Rightarrow> (string \<rightharpoonup> string)" where
  "configured_operation opStr key v m =
     (if opStr = ''set'' then m(key \<mapsto> v)
      else if opStr = ''delete_all'' then Map.empty
      else if opStr = ''delete_prefix'' then (\<lambda>k. if prefix v k then None else m k)
      else m)"

text \<open>
  The part at position \<open>k\<close> of a batch of \<open>n\<close> parts is in the configured index subset:
  the subset is empty (the default, every part), or one of its indices names \<open>k\<close>.
\<close>

definition targeted :: "library \<Rightarrow> int list \<Rightarrow> nat \<Rightarrow> nat \<Rightarrow> bool" where
  "targeted L idxs n k \<longleftrightarrow> idxs = [] \<or> (\<exists>i\<in>set idxs. Get L i n = Some k)"

section \<open>What is assumed of a stage when parts are shared\<close>

text \<open>
  A stage owns the batch it is given and the parts it allocates, nothing else: it only
  extends the store, it leaves every part outside its input batch as it was, and the
  batches it returns are made of parts of its input and of parts it allocated.
\<close>

definition local_proc :: "processor \<Rightarrow> bool" where
  "local_proc P \<longleftrightarrow>
     (\<forall>s m. case P s m of (s', out, r) \<Rightarrow>
        length s \<le> length s' \<and>
        (\<forall>a<length s. a \<notin> set m \<longrightarrow> s' ! a = s ! a) \<and>
        (\<forall>b\<in>set out. \<forall>a\<in>set b. a \<in> set m \<or> length s \<le> a))"

definition local_groups :: "group list \<Rightarrow> bool" where
  "local_groups gs \<longleftrightarrow> (\<forall>g\<in>set gs. \<forall>P\<in>set (Processors g). local_proc P)"

text \<open>The same stage with its response taken away, and a group of such stages.\<close>

definition silenced :: "processor \<Rightarrow> processor" where
  "silenced P = (\<lambda>s m. case P s m of (s', out, r) \<Rightarrow> (s', out, None))"

definition silence_group :: "group \<Rightarrow> group" where
  "silence_group g = g\<lparr>Processors := map silenced (Processors g)\<rparr>"

section \<open>Concrete batches, predicates and stages\<close>

text \<open>
  The scenario of spec section 8: three parts \<open>foo1\<close>, \<open>bar1\<close>, \<open>foo2\<close>, one group for
  the payloads that start with \<open>foo\<close>, whose single stage sets the metadata key
  \<open>grouping\<close> to \<open>foo\<close>.
\<close>

definition foo_store :: store where
  "foo_store =
     [\<lparr>content = ''foo1'', metadata = Map.empty\<rparr>,
      \<lparr>content = ''bar1'', metadata = Map.empty\<rparr>,
      \<lparr>content = ''foo2'', metadata = Map.empty\<rparr>]"

definition foo_msg :: message where
  "foo_msg = [0, 1, 2]"

definition is_foo :: "part list \<times> nat \<Rightarrow> bool" where
  "is_foo v = prefix ''foo'' (content (fst v ! snd v))"

definition plain_library :: library where
  "plain_library =
     \<lparr>ContainsFunctionVariables = (\<lambda>v. False),
      ReplaceFunctionVariables = (\<lambda>ps v. v),
      Get = (\<lambda>i n. if 0 \<le> i \<and> nat i < n then Some (nat i) else None)\<rparr>"

definition set_grouping :: Metadata where
  "set_grouping =
     \<lparr>interpolate = False, valueBytes = ''foo'',
      operator = newMetadataSetOperator ''grouping'', parts = []\<rparr>"

definition foo_groups :: "group list" where
  "foo_groups =
     [\<lparr>Condition = is_foo, Processors = [Metadata_ProcessMessage plain_library set_grouping]\<rparr>]"

text \<open>A stage that blanks the payload of every part of its batch in place and reports an error.\<close>

definition scrub :: processor where
  "scrub s m =
     (foldl (\<lambda>s a. s[a := (s ! a)\<lparr>content := []\<rparr>]) s m, [m], Some (Response (Some ''scrubbed'')))"

text \<open>A stage that consumes its batch, one that returns a batch with no parts, and one
  that returns one batch per part.\<close>

definition drop_all :: processor where
  "drop_all s m = (s, [], Some NewAck)"

definition empty_batch :: processor where
  "empty_batch s m = (s, [[]], None)"


text \<open>Two groups without stages; the second takes every part the first leaves.\<close>

definition two_groups :: "group list" where
  "two_groups =
     [\<lparr>Condition = is_foo, Processors = []\<rparr>, \<lparr>Condition = (\<lambda>v. True), Processors = []\<rparr>]"

text \<open>Three groups without stages whose predicates pass on every part.\<close>

definition three_groups :: "group list" where
  "three_groups =
     [\<lparr>Condition = (\<lambda>v. True), Processors = []\<rparr>,
      \<lparr>Condition = (\<lambda>v. True), Processors = []\<rparr>,
      \<lparr>Condition = (\<lambda>v. True), Processors = []\<rparr>]"

text \<open>
  One group that takes every part, with a stage that returns a batch without parts.
\<close>

definition hollow_groups :: "group list" where
  "hollow_groups = [\<lparr>Condition = (\<lambda>v. True), Processors = [empty_batch]\<rparr>]"

text \<open>
  The group of the \<open>foo\<close> payloads with the stage that edits in place and reports an error.
\<close>

definition scrub_groups :: "group list" where
  "scrub_groups = [\<lparr>Condition = is_foo, Processors = [scrub]\<rparr>]"

text \<open>
  One group that takes every part, with a stage that consumes its batch.
\<close>

definition drop_groups :: "group list" where
  "drop_groups = [\<lparr>Condition = (\<lambda>v. True), Processors = [drop_all]\<rparr>]"



text \<open>
  Two parts that carry metadata, and three configurations of the metadata stage with
  the stages they construct.
\<close>

definition tagged_store :: store where
  "tagged_store =
     [\<lparr>content = ''a'', metadata = [''grouping'' \<mapsto> ''foo'', ''other'' \<mapsto> ''x'']\<rparr>,
      \<lparr>content = ''b'', metadata = [''grouping'' \<mapsto> ''bar'']\<rparr>]"

definition prefix_conf :: MetadataConfig where
  "prefix_conf = \<lparr>Parts = [0, 0, 7], Operator = ''delete_prefix'', Key = [], Value = ''gr''\<rparr>"

definition bogus_conf :: MetadataConfig where
  "bogus_conf = \<lparr>Parts = [], Operator = ''bogus'', Key = ''example'', Value = ''v''\<rparr>"

definition prefix_stage :: Metadata where
  "prefix_stage =
     \<lparr>interpolate = False, valueBytes = ''gr'',
      operator = newMetadataDeletePrefixOperator [], parts = [0, 0, 7]\<rparr>"

text \<open>
  A library whose function variable resolves to the metadata key \<open>first\<close> of the
  batch's first part, followed by \<open>!\<close>, or to \<open>unset\<close> when the key is absent.
\<close>

definition first_library :: library where
  "first_library =
     \<lparr>ContainsFunctionVariables = (\<lambda>v. v = ''${!first}''),
      ReplaceFunctionVariables =
        (\<lambda>ps v. case ps of [] \<Rightarrow> v
           | q # qs \<Rightarrow> (case metadata q ''first'' of None \<Rightarrow> ''unset'' | Some x \<Rightarrow> x @ ''!'')),
      Get = (\<lambda>i n. if 0 \<le> i \<and> nat i < n then Some (nat i) else None)\<rparr>"

definition first_conf :: MetadataConfig where
  "first_conf = \<lparr>Parts = [], Operator = ''set'', Key = ''first'', Value = ''${!first}''\<rparr>"

definition first_stage :: Metadata where
  "first_stage =
     \<lparr>interpolate = True, valueBytes = ''${!first}'',
      operator = newMetadataSetOperator ''first'', parts = []\<rparr>"

section \<open>The routing: counting\<close>

lemma first_pass_bounds:
  "first_pass gs j v = Some k \<Longrightarrow> j \<le> k \<and> k < j + length gs"
proof (induction gs arbitrary: j)
  case Nil
  then show ?case by simp
next
  case (Cons g gs)
  show ?case
  proof (cases "Condition g v")
    case True
    with Cons.prems show ?thesis by simp
  next
    case False
    with Cons.prems have "first_pass gs (Suc j) v = Some k" by simp
    from Cons.IH[OF this] show ?thesis by simp
  qed
qed

lemma mset_upt_first: "mset [n..<n + Suc k] = add_mset n (mset [Suc n..<Suc n + k])"
proof -
  have "[n..<n + Suc k] = n # [Suc n..<Suc n + k]" by (simp add: upt_conv_Cons)
  then show ?thesis by (simp del: mset_upt)
qed

lemma mset_concat_update:
  "j < length xs \<Longrightarrow> mset (concat (xs[j := xs ! j @ [c]])) = add_mset c (mset (concat xs))"
  by (induction xs arbitrary: j) (auto split: nat.splits simp: nth_Cons')

lemma route_part_cases:
  assumes "length groups = length gs"
  shows "\<exists>groups' gl'. route_part gs msg i p (s, groups, gl) = (s @ [s ! p], groups', gl')
     \<and> length groups' = length gs
     \<and> mset (concat groups' @ gl') = add_mset (length s) (mset (concat groups @ gl))"
proof (cases "first_pass gs 0 (Lock s msg i)")
  case None
  then show ?thesis using assms by (simp add: route_part_def Part_Copy_def)
next
  case (Some j)
  then have "j < length groups" using first_pass_bounds[OF Some] assms by simp
  then show ?thesis using Some assms
    by (simp add: route_part_def Part_Copy_def mset_concat_update)
qed

lemma Iter_count:
  "length groups = length gs \<Longrightarrow> Iter gs msg i ps (s, groups, gl) = (s', groups', gl') \<Longrightarrow>
     length groups' = length gs \<and> length s' = length s + length ps \<and>
     mset (concat groups' @ gl') = mset (concat groups @ gl) + mset [length s..<length s + length ps]"
proof (induction ps arbitrary: i s groups gl)
  case Nil
  then show ?case by simp
next
  case (Cons p ps)
  obtain g2 gl2 where r: "route_part gs msg i p (s, groups, gl) = (s @ [s ! p], g2, gl2)"
    and l: "length g2 = length gs"
    and m: "mset (concat g2 @ gl2) = add_mset (length s) (mset (concat groups @ gl))"
    using route_part_cases[OF Cons.prems(1)] by blast
  from Cons.prems(2) r have "Iter gs msg (Suc i) ps (s @ [s ! p], g2, gl2) = (s', groups', gl')"
    by simp
  from Cons.IH[OF l this] m mset_upt_first[of "length s" "length ps"] show ?case
    by (simp del: mset_upt)
qed

lemma concat_replicate_Nil: "concat (replicate n []) = []"
  by (induction n) simp_all

text \<open>
  Claim C1. Whatever the input batch, the routing leaves one working batch per group,
  and the part counts of the working batches and of the residual batch add up to the
  part count of the input batch. The routing allocates one duplicate per part, and
  each duplicate stands exactly once among all the destinations.
\<close>

theorem C1_conservation:
  assumes "route gs s msg = (s1, groups, groupless)"
  shows "length groups = length gs \<and>
         sum_list (map length groups) + length groupless = length msg \<and>
         length s1 = length s + length msg \<and>
         mset (concat groups @ groupless) = mset [length s..<length s + length msg]"
proof -
  have it: "Iter gs msg 0 msg (s, replicate (length gs) [], []) = (s1, groups, groupless)"
    using assms by (simp add: route_def)
  have c: "length groups = length gs \<and> length s1 = length s + length msg \<and>
     mset (concat groups @ groupless) =
       mset (concat (replicate (length gs) []) @ []) + mset [length s..<length s + length msg]"
    using Iter_count[OF _ it] by simp
  then have m: "mset (concat groups @ groupless) = mset [length s..<length s + length msg]"
    by (simp add: concat_replicate_Nil del: mset_upt)
  have "length (concat groups @ groupless) = length [length s..<length s + length msg]"
    using mset_eq_length[OF m] .
  then have "sum_list (map length groups) + length groupless = length msg"
    by (simp add: length_concat)
  with c m show ?thesis by simp
qed

lemma route_foo: "route foo_groups foo_store foo_msg = (foo_store @ foo_store, [[3, 5]], [4])"
  by (simp add: route_def route_part_def Part_Copy_def Lock_def foo_groups_def foo_store_def
      foo_msg_def is_foo_def)

theorem C1_conservation_witness:
  "route foo_groups foo_store foo_msg = (foo_store @ foo_store, [[3, 5]], [4]) \<and>
   length [[3, 5 :: nat]] = length foo_groups \<and>
   sum_list (map length [[3, 5 :: nat]]) + length [4 :: nat] = length foo_msg \<and>
   mset (concat [[3, 5]] @ [4]) = mset [length foo_store..<length foo_store + length foo_msg]"
  using C1_conservation[OF route_foo] route_foo by simp

section \<open>The routing: where each part goes\<close>

lemma wf_nth_append: "wf_message s msg \<Longrightarrow> map (\<lambda>a. (s @ xs) ! a) msg = map (\<lambda>a. s ! a) msg"
  by (simp add: wf_message_def list_all_iff nth_append)

lemma Lock_append: "wf_message s msg \<Longrightarrow> Lock (s @ xs) msg i = Lock s msg i"
  by (simp add: Lock_def wf_nth_append)

lemma routed_0: "routed gs s msg 0 = (s, replicate (length gs) [], [])"
  by (simp add: routed_def map_replicate_const)

lemma routed_step:
  assumes wf: "wf_message s msg" and i: "i < length msg"
  shows "route_part gs msg i (msg ! i) (routed gs s msg i) = routed gs s msg (Suc i)"
proof -
  let ?xs = "map (\<lambda>a. s ! a) (take i msg)"
  have a: "msg ! i < length s" using wf i by (simp add: wf_message_def list_all_length)
  have lk: "first_pass gs 0 (Lock (s @ ?xs) msg i) = destination gs s msg i"
    by (simp add: destination_def Lock_append[OF wf])
  have st: "s @ ?xs @ [(s @ ?xs) ! (msg ! i)] = s @ map (\<lambda>a. s ! a) (take (Suc i) msg)"
    using a i by (simp add: take_Suc_conv_app_nth nth_append)
  show ?thesis
  proof (cases "destination gs s msg i")
    case None
    then show ?thesis using lk st i
      by (simp add: route_part_def routed_def Part_Copy_def)
  next
    case (Some j)
    then have j: "j < length gs"
      using first_pass_bounds[of gs 0 "Lock s msg i" j] by (simp add: destination_def)
    have "(map (\<lambda>j. map (\<lambda>k. length s + k) (filter (\<lambda>k. destination gs s msg k = Some j) [0..<i])) [0..<length gs])
            [j := map (\<lambda>j. map (\<lambda>k. length s + k) (filter (\<lambda>k. destination gs s msg k = Some j) [0..<i])) [0..<length gs] ! j @ [length s + i]]
          = map (\<lambda>j. map (\<lambda>k. length s + k) (filter (\<lambda>k. destination gs s msg k = Some j) [0..<Suc i])) [0..<length gs]"
      using j Some by (intro nth_equalityI) (auto simp: nth_list_update)
    then show ?thesis using lk st i Some
      by (simp add: route_part_def routed_def Part_Copy_def)
  qed
qed

lemma Iter_routed:
  "wf_message s msg \<Longrightarrow> ps = drop i msg \<Longrightarrow> i \<le> length msg \<Longrightarrow>
     Iter gs msg i ps (routed gs s msg i) = routed gs s msg (length msg)"
proof (induction ps arbitrary: i)
  case Nil
  then show ?case by simp
next
  case (Cons p ps)
  have i: "i < length msg"
  proof (rule ccontr)
    assume "\<not> i < length msg"
    then have "drop i msg = []" by simp
    with Cons.prems(2) show False by simp
  qed
  have "p # ps = msg ! i # drop (Suc i) msg"
    using Cons.prems(2) Cons_nth_drop_Suc[OF i] by simp
  then have p: "p = msg ! i" and ps: "ps = drop (Suc i) msg" by simp_all
  show ?case
    using Cons.IH[OF Cons.prems(1) ps] i p routed_step[OF Cons.prems(1) i, of gs] by simp
qed

lemma route_routed: "wf_message s msg \<Longrightarrow> route gs s msg = routed gs s msg (length msg)"
  using Iter_routed[of s msg msg 0 gs] by (simp add: route_def routed_0)

lemma first_pass_None_iff:
  "first_pass gs j v = None \<longleftrightarrow> (\<forall>i<length gs. \<not> Condition (gs ! i) v)"
  by (induction gs arbitrary: j) (auto simp: All_less_Suc2)

lemma first_pass_Some_iff:
  "first_pass gs j v = Some k \<longleftrightarrow>
     j \<le> k \<and> k < j + length gs \<and> Condition (gs ! (k - j)) v \<and> (\<forall>i<k - j. \<not> Condition (gs ! i) v)"
proof (induction gs arbitrary: j)
  case Nil
  then show ?case by simp
next
  case (Cons g gs)
  show ?case
  proof (cases "Condition g v")
    case True
    have "k \<noteq> j \<Longrightarrow> j \<le> k \<Longrightarrow> \<exists>i<k - j. Condition ((g # gs) ! i) v"
      using True by (intro exI[of _ 0]) simp
    then show ?thesis using True by auto
  next
    case False
    have a: "(\<forall>i<k - j. \<not> Condition ((g # gs) ! i) v) \<longleftrightarrow> (\<forall>i<k - Suc j. \<not> Condition (gs ! i) v)"
      if "Suc j \<le> k"
    proof -
      have "k - j = Suc (k - Suc j)" using that by simp
      then show ?thesis using False by (simp add: All_less_Suc2)
    qed
    have b: "(g # gs) ! (k - j) = gs ! (k - Suc j)" if "Suc j \<le> k"
      using that by (simp add: nth_Cons')
    have c: "j \<le> k \<and> Condition ((g # gs) ! (k - j)) v \<Longrightarrow> Suc j \<le> k"
      using False by (cases "k = j") auto
    show ?thesis using False Cons.IH[of "Suc j"] a b c by auto
  qed
qed

lemma destination_Some_iff:
  "destination gs s msg k = Some j \<longleftrightarrow>
     j < length gs \<and> Condition (gs ! j) (Lock s msg k) \<and> (\<forall>i<j. \<not> Condition (gs ! i) (Lock s msg k))"
  by (simp add: destination_def first_pass_Some_iff)

lemma destination_None_iff:
  "destination gs s msg k = None \<longleftrightarrow> (\<forall>j<length gs. \<not> Condition (gs ! j) (Lock s msg k))"
  by (simp add: destination_def first_pass_None_iff)

text \<open>
  Claim C2, as amended. In a well-formed batch, the duplicate of the part at index \<open>k\<close>
  (it stands at address \<open>length s + k\<close> and holds the part's value) is in the working
  batch of group \<open>j\<close> exactly when the predicate of \<open>j\<close> passes on the part and the
  predicate of no earlier group does: the part goes to the first group that passes, and
  never to a later one. It is in the residual batch exactly when no group's predicate
  passes. The claim as stated, "assigned to group \<open>i\<close>" for any two passing groups
  \<open>i < j\<close>, fails when a group before \<open>i\<close> passes as well.
\<close>

theorem C2_first_match:
  assumes "wf_message s msg" and "route gs s msg = (s1, groups, groupless)" and "k < length msg"
  shows "(\<forall>j<length gs. length s + k \<in> set (groups ! j) \<longleftrightarrow>
            Condition (gs ! j) (Lock s msg k) \<and> (\<forall>i<j. \<not> Condition (gs ! i) (Lock s msg k))) \<and>
         (length s + k \<in> set groupless \<longleftrightarrow> (\<forall>j<length gs. \<not> Condition (gs ! j) (Lock s msg k))) \<and>
         s1 ! (length s + k) = s ! (msg ! k)"
proof -
  have r: "routed gs s msg (length msg) = (s1, groups, groupless)"
    using assms(1,2) by (simp add: route_routed)
  have g: "groups ! j = map (\<lambda>k. length s + k)
      (filter (\<lambda>k. destination gs s msg k = Some j) [0..<length msg])" if "j < length gs" for j
    using r that by (auto simp: routed_def)
  have gl: "groupless = map (\<lambda>k. length s + k)
      (filter (\<lambda>k. destination gs s msg k = None) [0..<length msg])"
    using r by (auto simp: routed_def)
  have s1: "s1 = s @ map (\<lambda>a. s ! a) msg"
    using r by (auto simp: routed_def)
  have 1: "length s + k \<in> set (groups ! j) \<longleftrightarrow>
            Condition (gs ! j) (Lock s msg k) \<and> (\<forall>i<j. \<not> Condition (gs ! i) (Lock s msg k))"
    if "j < length gs" for j
    using that assms(3) by (auto simp: g[OF that] destination_Some_iff)
  have 2: "length s + k \<in> set groupless \<longleftrightarrow> (\<forall>j<length gs. \<not> Condition (gs ! j) (Lock s msg k))"
    using assms(3) by (auto simp: gl destination_None_iff)
  have 3: "s1 ! (length s + k) = s ! (msg ! k)"
    using assms(3) by (simp add: s1)
  from 1 2 3 show ?thesis by blast
qed

text \<open>
  Claim C3. In a well-formed batch, the part values of each group's working batch, read
  in the batch's order, are the values of the input parts routed to that group, by
  increasing index in the input batch; the same holds of the residual batch. The
  duplicates themselves stand in each batch by increasing address, which is the order
  of the input.
\<close>

theorem C3_order:
  assumes "wf_message s msg" and "route gs s msg = (s1, groups, groupless)"
  shows "(\<forall>j<length gs. map (\<lambda>a. s1 ! a) (groups ! j) =
            map (\<lambda>k. s ! (msg ! k)) (filter (\<lambda>k. destination gs s msg k = Some j) [0..<length msg])) \<and>
         map (\<lambda>a. s1 ! a) groupless =
            map (\<lambda>k. s ! (msg ! k)) (filter (\<lambda>k. destination gs s msg k = None) [0..<length msg]) \<and>
         (\<forall>j<length gs. sorted_wrt (<) (groups ! j)) \<and> sorted_wrt (<) groupless"
proof -
  have r: "routed gs s msg (length msg) = (s1, groups, groupless)"
    using assms(1,2) by (simp add: route_routed)
  have g: "groups ! j = map (\<lambda>k. length s + k)
      (filter (\<lambda>k. destination gs s msg k = Some j) [0..<length msg])" if "j < length gs" for j
    using r that by (auto simp: routed_def)
  have gl: "groupless = map (\<lambda>k. length s + k)
      (filter (\<lambda>k. destination gs s msg k = None) [0..<length msg])"
    using r by (auto simp: routed_def)
  have s1: "s1 = s @ map (\<lambda>a. s ! a) msg"
    using r by (auto simp: routed_def)
  have so: "sorted_wrt (<) (map (\<lambda>k. length s + k) (filter Q [0..<n]))" for Q n
    by (simp add: sorted_wrt_map sorted_wrt_filter)
  have 1: "map (\<lambda>a. s1 ! a) (groups ! j) =
            map (\<lambda>k. s ! (msg ! k)) (filter (\<lambda>k. destination gs s msg k = Some j) [0..<length msg])"
    if "j < length gs" for j
    by (simp add: g[OF that] s1 o_def)
  have 2: "map (\<lambda>a. s1 ! a) groupless =
            map (\<lambda>k. s ! (msg ! k)) (filter (\<lambda>k. destination gs s msg k = None) [0..<length msg])"
    by (simp add: gl s1 o_def)
  from 1 2 so g gl show ?thesis by simp
qed

lemma wf_foo: "wf_message foo_store foo_msg"
  by (simp add: wf_message_def foo_store_def foo_msg_def)

lemma route_two: "route two_groups foo_store foo_msg = (foo_store @ foo_store, [[3, 5], [4]], [])"
  by (simp add: route_def route_part_def Part_Copy_def Lock_def two_groups_def foo_store_def
      foo_msg_def is_foo_def)

lemma route_three:
  "route three_groups foo_store foo_msg = (foo_store @ foo_store, [[3, 4, 5], [], []], [])"
  by (simp add: route_def route_part_def Part_Copy_def Lock_def three_groups_def foo_store_def
      foo_msg_def)

text \<open>
  Against claim C2 as stated: the part at index 0 satisfies the predicates of the
  groups at indices 1 and 2, and its duplicate is in the working batch of group 0, not
  in that of group 1.
\<close>

theorem C2_counterexample:
  "route three_groups foo_store foo_msg = (foo_store @ foo_store, [[3, 4, 5], [], []], []) \<and>
   Condition (three_groups ! 1) (Lock foo_store foo_msg 0) \<and>
   Condition (three_groups ! 2) (Lock foo_store foo_msg 0) \<and>
   length foo_store + 0 \<in> set ([[3, 4, 5], [], []] ! 0) \<and>
   length foo_store + 0 \<notin> set ([[3, 4, 5], [], []] ! 1)"
  using route_three by (simp add: three_groups_def foo_store_def)

theorem C2_first_match_witness:
  "wf_message foo_store foo_msg \<and>
   route two_groups foo_store foo_msg = (foo_store @ foo_store, [[3, 5], [4]], []) \<and>
   0 < length foo_msg \<and>
   Condition (two_groups ! 0) (Lock foo_store foo_msg 0) \<and>
   Condition (two_groups ! 1) (Lock foo_store foo_msg 0) \<and>
   length foo_store + 0 \<in> set ([[3, 5], [4]] ! 0) \<and>
   length foo_store + 0 \<notin> set ([[3, 5], [4]] ! 1) \<and>
   length foo_store + 0 \<notin> set [] \<and>
   (foo_store @ foo_store) ! (length foo_store + 0) = foo_store ! (foo_msg ! 0)"
proof -
  have k: "0 < length foo_msg" by (simp add: foo_msg_def)
  have c0: "Condition (two_groups ! 0) (Lock foo_store foo_msg 0)"
    by (simp add: two_groups_def Lock_def is_foo_def foo_store_def foo_msg_def)
  have c1: "Condition (two_groups ! 1) (Lock foo_store foo_msg 0)"
    by (simp add: two_groups_def)
  have n: "length two_groups = 2" by (simp add: two_groups_def)
  note th = C2_first_match[OF wf_foo route_two k]
  from th n have a: "length foo_store + 0 \<in> set ([[3, 5], [4]] ! 0)"
    using c0 by (simp del: nth_Cons_0 add: All_less_Suc numeral_2_eq_2)
  from th n have b: "length foo_store + 0 \<notin> set ([[3, 5], [4]] ! 1)"
    using c0 by (simp add: All_less_Suc numeral_2_eq_2)
  from th have c: "length foo_store + 0 \<notin> set []" by simp
  from th have d: "(foo_store @ foo_store) ! (length foo_store + 0) = foo_store ! (foo_msg ! 0)"
    by blast
  from wf_foo route_two k c0 c1 a b c d show ?thesis by blast
qed

theorem C3_order_witness:
  "wf_message foo_store foo_msg \<and>
   route foo_groups foo_store foo_msg = (foo_store @ foo_store, [[3, 5]], [4]) \<and>
   map (\<lambda>a. (foo_store @ foo_store) ! a) ([[3, 5]] ! 0) = [foo_store ! (foo_msg ! 0), foo_store ! (foo_msg ! 2)] \<and>
   map (\<lambda>a. (foo_store @ foo_store) ! a) [4] = [foo_store ! (foo_msg ! 1)] \<and>
   sorted_wrt (<) ([[3, 5 :: nat]] ! 0)"
proof -
  have d: "filter (\<lambda>k. destination foo_groups foo_store foo_msg k = Some 0) [0..<length foo_msg] = [0, 2]"
      "filter (\<lambda>k. destination foo_groups foo_store foo_msg k = None) [0..<length foo_msg] = [1]"
    by (simp_all add: destination_def Lock_def foo_groups_def foo_store_def foo_msg_def is_foo_def
        upt_rec[of 0] upt_rec[of 1] upt_rec[of 2] upt_rec[of 3])
  have n: "length foo_groups = 1" by (simp add: foo_groups_def)
  note th = C3_order[OF wf_foo route_foo]
  from th n d have "map (\<lambda>a. (foo_store @ foo_store) ! a) ([[3, 5]] ! 0) = [foo_store ! (foo_msg ! 0), foo_store ! (foo_msg ! 2)]"
    by simp
  moreover from th d have "map (\<lambda>a. (foo_store @ foo_store) ! a) [4] = [foo_store ! (foo_msg ! 1)]"
    by simp
  moreover from th n have "sorted_wrt (<) ([[3, 5 :: nat]] ! 0)" by simp
  ultimately show ?thesis using wf_foo route_foo by blast
qed

section \<open>The loops and the spec's folds\<close>

lemma stage_loop_fold:
  "stage_loop P ms (s, res, acc) = (s', res', out) \<Longrightarrow>
     foldl (\<lambda>(s, out) m. case P s m of (s', produced, r) \<Rightarrow> (s', out @ produced)) (s, acc) ms
       = (s', out)"
  by (induction ms arbitrary: s res acc) (auto split: prod.splits)

lemma stage_loop_spec:
  "stage_loop P ms (s, res, []) = (s', res', out) \<Longrightarrow> stage_spec P (s, ms) = (s', out)"
  by (simp add: stage_spec_def stage_loop_fold)

lemma chain_spec_Nil [simp]: "chain_spec [] st = st"
  by (simp add: chain_spec_def)

lemma chain_spec_empty [simp]: "chain_spec Ps (s, []) = (s, [])"
  by (induction Ps) (simp_all add: chain_spec_def)

lemma chain_spec_Cons:
  "chain_spec (P # Ps) (s, ws) = (if ws = [] then (s, ws) else chain_spec Ps (stage_spec P (s, ws)))"
  by (simp add: chain_spec_def) (use chain_spec_empty[of Ps s] in \<open>simp add: chain_spec_def\<close>)

lemma chain_loop_spec:
  "chain_loop Ps (s, res, ws) = (s', res', ws') \<Longrightarrow> chain_spec Ps (s, ws) = (s', ws')"
proof (induction Ps arbitrary: s res ws)
  case Nil
  then show ?case by simp
next
  case (Cons P Ps)
  show ?case
  proof (cases "ws = []")
    case True
    with Cons.prems show ?thesis by simp
  next
    case False
    obtain s1 res1 ws1 where st: "stage_loop P ws (s, res, []) = (s1, res1, ws1)"
      by (cases "stage_loop P ws (s, res, [])") auto
    with Cons.prems False have "chain_loop Ps (s1, res1, ws1) = (s', res', ws')" by simp
    from Cons.IH[OF this] stage_loop_spec[OF st] False show ?thesis
      by (simp add: chain_spec_Cons)
  qed
qed

lemma group_loop_spec:
  "group_loop gs groups (s, lg, msgs) = (s', lg', out) \<Longrightarrow>
     s' = fst (collect_spec gs groups s) \<and> out = msgs @ snd (collect_spec gs groups s)"
proof (induction gs groups s arbitrary: lg msgs rule: collect_spec.induct)
  case (1 g gs b bs s)
  show ?case
  proof (cases "b = []")
    case True
    with "1.prems" "1.IH"(1) show ?thesis by simp
  next
    case False
    obtain s1 res1 ws1 where ch: "chain_loop (Processors g) (s, None, [b]) = (s1, res1, ws1)"
      by (cases "chain_loop (Processors g) (s, None, [b])") auto
    have sp: "chain_spec (Processors g) (s, [b]) = (s1, ws1)"
      using chain_loop_spec[OF ch] .
    have "group_loop gs bs (s1, log_response res1 lg, msgs @ ws1) = (s', lg', out)"
      using "1.prems" False ch by (cases "ws1 = []") simp_all
    from "1.IH"(2)[OF False sp[symmetric] this] False sp show ?thesis
      by (simp split: prod.splits)
  qed
next
  case (2 bs s)
  then show ?case by simp
next
  case (3 v va s)
  then show ?case by simp
qed

lemma GroupBy_ProcessMessage_combined:
  assumes "GroupBy_ProcessMessage gs s msg = (s', lg, out, res)"
  shows "(if msg = [] then s' = s \<and> lg = [] \<and> out = [] \<and> res = Some NewAck
      else s' = fst (combined gs s msg) \<and>
        (if snd (combined gs s msg) = [] then out = [] \<and> res = Some NewAck
         else out = snd (combined gs s msg) \<and> res = None))"
proof (cases "msg = []")
  case True
  then show ?thesis using assms by (auto simp: GroupBy_ProcessMessage_def)
next
  case False
  obtain s1 groups groupless where r: "route gs s msg = (s1, groups, groupless)"
    by (cases "route gs s msg") auto
  obtain s2 lg2 msgs where g: "group_loop gs groups (s1, [], []) = (s2, lg2, msgs)"
    by (cases "group_loop gs groups (s1, [], [])") auto
  from group_loop_spec[OF g] have c: "collect_spec gs groups s1 = (s2, msgs)"
    by (cases "collect_spec gs groups s1") simp
  show ?thesis using assms False r g c
    by (auto simp: GroupBy_ProcessMessage_def combined_def Let_def split: if_splits)
qed

text \<open>
  Claim C4, as amended. The batches and the response that \<^verbatim>\<open>ProcessMessage\<close> returns: no
  batch and the acknowledgement \<^verbatim>\<open>NewAck\<close>, whose \<^verbatim>\<open>Error()\<close> is nil, exactly when the
  input batch has no parts or the code's collection holds no batch; otherwise that
  collection and a nil response. The code's collection is every batch the groups'
  chains leave, with or without parts, then the residual batch if it has parts. The
  claim as stated speaks of the collection of step 6, the non-empty batches only, and
  fails where a chain leaves a batch without parts.
\<close>

theorem C4_nothing_to_forward:
  "snd (snd (GroupBy_ProcessMessage gs s msg)) =
     (if msg = [] \<or> snd (combined gs s msg) = [] then ([], Some NewAck)
      else (snd (combined gs s msg), None)) \<and>
   Error NewAck = None"
proof -
  obtain s' lg out res where g: "GroupBy_ProcessMessage gs s msg = (s', lg, out, res)"
    by (cases "GroupBy_ProcessMessage gs s msg") auto
  from GroupBy_ProcessMessage_combined[OF g] g show ?thesis
    by (auto simp: NewAck_def split: if_splits)
qed

section \<open>What local stages leave alone\<close>

lemma local_proc_step:
  assumes "local_proc P" and "P s m = (s1, out, r)" and "A \<subseteq> {..<length s}" and "set m \<inter> A = {}"
  shows "length s \<le> length s1 \<and> (\<forall>a\<in>A. s1 ! a = s ! a) \<and> (\<forall>b\<in>set out. set b \<inter> A = {})"
proof -
  from assms(1)[unfolded local_proc_def, rule_format, of s m] assms(2)
  have l: "length s \<le> length s1"
    and k: "\<And>a. a < length s \<Longrightarrow> a \<notin> set m \<Longrightarrow> s1 ! a = s ! a"
    and o: "\<And>b a. b \<in> set out \<Longrightarrow> a \<in> set b \<Longrightarrow> a \<in> set m \<or> length s \<le> a"
    by auto
  have "s1 ! a = s ! a" if "a \<in> A" for a
    using k[of a] that assms(3,4) by auto
  moreover have "set b \<inter> A = {}" if "b \<in> set out" for b
    using o[OF that] assms(3,4) by fastforce
  ultimately show ?thesis using l by blast
qed

lemma stage_loop_frame:
  assumes "local_proc P"
  shows "A \<subseteq> {..<length s} \<Longrightarrow> \<forall>m\<in>set ms. set m \<inter> A = {} \<Longrightarrow> \<forall>m\<in>set acc. set m \<inter> A = {} \<Longrightarrow>
     stage_loop P ms (s, res, acc) = (s', res', out) \<Longrightarrow>
     length s \<le> length s' \<and> (\<forall>a\<in>A. s' ! a = s ! a) \<and> (\<forall>m\<in>set out. set m \<inter> A = {})"
proof (induction ms arbitrary: s res acc)
  case Nil
  then show ?case by simp
next
  case (Cons m ms)
  obtain s1 r res1 where p: "P s m = (s1, r, res1)" by (cases "P s m") auto
  from local_proc_step[OF assms p Cons.prems(1)] Cons.prems(2)
  have l: "length s \<le> length s1" and k: "\<forall>a\<in>A. s1 ! a = s ! a"
    and o: "\<forall>b\<in>set r. set b \<inter> A = {}" by auto
  have A1: "A \<subseteq> {..<length s1}" using Cons.prems(1) l by auto
  have st: "stage_loop P ms (s1, res1, acc @ r) = (s', res', out)"
    using Cons.prems(4) p by simp
  have "\<forall>m\<in>set (acc @ r). set m \<inter> A = {}" using Cons.prems(3) o by auto
  from Cons.IH[OF A1 _ this st] Cons.prems(2) l k show ?case by auto
qed

lemma chain_loop_frame:
  "\<forall>P\<in>set Ps. local_proc P \<Longrightarrow> A \<subseteq> {..<length s} \<Longrightarrow> \<forall>m\<in>set ws. set m \<inter> A = {} \<Longrightarrow>
     chain_loop Ps (s, res, ws) = (s', res', ws') \<Longrightarrow>
     length s \<le> length s' \<and> (\<forall>a\<in>A. s' ! a = s ! a) \<and> (\<forall>m\<in>set ws'. set m \<inter> A = {})"
proof (induction Ps arbitrary: s res ws)
  case Nil
  then show ?case by simp
next
  case (Cons P Ps)
  show ?case
  proof (cases "ws = []")
    case True
    with Cons.prems show ?thesis by simp
  next
    case False
    obtain s1 res1 ws1 where st: "stage_loop P ws (s, res, []) = (s1, res1, ws1)"
      by (cases "stage_loop P ws (s, res, [])") auto
    have lp: "local_proc P" using Cons.prems(1) by simp
    from stage_loop_frame[OF lp Cons.prems(2,3) _ st]
    have l: "length s \<le> length s1" and k: "\<forall>a\<in>A. s1 ! a = s ! a"
      and o: "\<forall>m\<in>set ws1. set m \<inter> A = {}" by auto
    have A1: "A \<subseteq> {..<length s1}" using Cons.prems(2) l by auto
    have ch: "chain_loop Ps (s1, res1, ws1) = (s', res', ws')"
      using Cons.prems(4) False st by simp
    have "\<forall>P\<in>set Ps. local_proc P" using Cons.prems(1) by simp
    from Cons.IH[OF this A1 o ch] l k show ?thesis by auto
  qed
qed

lemma group_loop_frame:
  "local_groups gs \<Longrightarrow> A \<subseteq> {..<length s} \<Longrightarrow> \<forall>b\<in>set groups. set b \<inter> A = {} \<Longrightarrow>
     group_loop gs groups (s, lg, msgs) = (s', lg', out) \<Longrightarrow>
     length s \<le> length s' \<and> (\<forall>a\<in>A. s' ! a = s ! a)"
proof (induction gs groups s arbitrary: lg msgs rule: collect_spec.induct)
  case (1 g gs b bs s)
  have lg: "local_groups gs" using "1.prems"(1) by (simp add: local_groups_def)
  have bs: "\<forall>b\<in>set bs. set b \<inter> A = {}" using "1.prems"(3) by simp
  show ?case
  proof (cases "b = []")
    case True
    with "1.prems"(4) have "group_loop gs bs (s, lg, msgs) = (s', lg', out)" by simp
    from "1.IH"(1)[OF True lg "1.prems"(2) bs this] show ?thesis .
  next
    case False
    obtain s1 res1 ws1 where ch: "chain_loop (Processors g) (s, None, [b]) = (s1, res1, ws1)"
      by (cases "chain_loop (Processors g) (s, None, [b])") auto
    have lp: "\<forall>P\<in>set (Processors g). local_proc P"
      using "1.prems"(1) by (simp add: local_groups_def)
    have "\<forall>m\<in>set [b]. set m \<inter> A = {}" using "1.prems"(3) by simp
    from chain_loop_frame[OF lp "1.prems"(2) this ch]
    have l: "length s \<le> length s1" and k: "\<forall>a\<in>A. s1 ! a = s ! a" by auto
    have A1: "A \<subseteq> {..<length s1}" using "1.prems"(2) l by auto
    have sp: "(s1, ws1) = chain_spec (Processors g) (s, [b])"
      using chain_loop_spec[OF ch] by simp
    have "group_loop gs bs (s1, log_response res1 lg, msgs @ ws1) = (s', lg', out)"
      using "1.prems"(4) False ch by (cases "ws1 = []") simp_all
    from "1.IH"(2)[OF False sp lg A1 bs this] l k show ?thesis by auto
  qed
next
  case (2 bs s)
  then show ?case by simp
next
  case (3 v va s)
  then show ?case by simp
qed

section \<open>The output and the source batch\<close>

lemma Iter_prefix:
  "length groups = length gs \<Longrightarrow> Iter gs msg i ps (s, groups, gl) = (s', groups', gl') \<Longrightarrow> prefix s s'"
proof (induction ps arbitrary: i s groups gl)
  case Nil
  then show ?case by simp
next
  case (Cons p ps)
  obtain g2 gl2 where r: "route_part gs msg i p (s, groups, gl) = (s @ [s ! p], g2, gl2)"
    and l: "length g2 = length gs"
    using route_part_cases[OF Cons.prems(1)] by blast
  from Cons.prems(2) r have "Iter gs msg (Suc i) ps (s @ [s ! p], g2, gl2) = (s', groups', gl')"
    by simp
  from Cons.IH[OF l this] show ?case by (rule append_prefixD)
qed

lemma route_fresh:
  assumes "route gs s msg = (s1, groups, groupless)"
  shows "length s1 = length s + length msg" and "prefix s s1"
    and "set (concat groups @ groupless) = {length s..<length s + length msg}"
    and "distinct (concat groups @ groupless)"
proof -
  have it: "Iter gs msg 0 msg (s, replicate (length gs) [], []) = (s1, groups, groupless)"
    using assms by (simp add: route_def)
  from Iter_count[OF _ it] show "length s1 = length s + length msg" by simp
  from Iter_prefix[OF _ it] show "prefix s s1" by simp
  from Iter_count[OF _ it]
  have m: "mset (concat groups @ groupless) = mset [length s..<length s + length msg]"
    by (simp add: concat_replicate_Nil del: mset_upt)
  from mset_eq_setD[OF m] show "set (concat groups @ groupless) = {length s..<length s + length msg}"
    by simp
  from mset_eq_imp_distinct_iff[OF m] show "distinct (concat groups @ groupless)"
    by simp
qed

lemma collect_spec_all_empty: "\<forall>b\<in>set bs. b = [] \<Longrightarrow> collect_spec gs bs s = (s, [])"
  by (induction gs bs s rule: collect_spec.induct) simp_all

lemma route_Nil: "route gs s [] = (s, replicate (length gs) [], [])"
  by (simp add: route_def)

lemma combined_Nil: "combined gs s [] = (s, [])"
  by (simp add: combined_def route_Nil collect_spec_all_empty)

lemma GroupBy_ProcessMessage_output:
  "fst (snd (snd (GroupBy_ProcessMessage gs s msg))) = snd (combined gs s msg)"
proof -
  obtain s' lg out res where g: "GroupBy_ProcessMessage gs s msg = (s', lg, out, res)"
    by (cases "GroupBy_ProcessMessage gs s msg") auto
  from GroupBy_ProcessMessage_combined[OF g] g show ?thesis
    by (auto simp: combined_Nil split: if_splits)
qed

lemma GroupBy_ProcessMessage_store:
  "fst (GroupBy_ProcessMessage gs s msg) = fst (combined gs s msg)"
proof -
  obtain s' lg out res where g: "GroupBy_ProcessMessage gs s msg = (s', lg, out, res)"
    by (cases "GroupBy_ProcessMessage gs s msg") auto
  from GroupBy_ProcessMessage_combined[OF g] g show ?thesis
    by (auto simp: combined_Nil split: if_splits)
qed

lemma combined_frame:
  assumes r: "route gs s msg = (s1, groups, groupless)" and lg: "local_groups gs"
    and A: "A \<subseteq> {..<length s1}" and d: "A \<inter> set (concat groups) = {}"
  shows "length s1 \<le> length (fst (combined gs s msg)) \<and> (\<forall>a\<in>A. fst (combined gs s msg) ! a = s1 ! a)"
proof -
  obtain s2 lg2 msgs where g: "group_loop gs groups (s1, [], []) = (s2, lg2, msgs)"
    by (cases "group_loop gs groups (s1, [], [])") auto
  have c: "fst (combined gs s msg) = s2"
    using group_loop_spec[OF g] r by (simp add: combined_def split: prod.splits)
  have "\<forall>b\<in>set groups. set b \<inter> A = {}" using d by auto
  from group_loop_frame[OF lg A this g] c show ?thesis by simp
qed

text \<open>
  Claim C6, as amended. The batches \<^verbatim>\<open>ProcessMessage\<close> returns are, in group configuration
  order, every batch that the chain of a group with a non-empty working batch leaves
  (with or without parts), followed by the residual batch if it has parts. When the
  stages are local, the parts of the residual batch are, in the final store, as the
  routing made them. The claim as stated, with "every non-empty batch", fails on a
  stage that returns a batch without parts.
\<close>

theorem C6_output:
  assumes "route gs s msg = (s1, groups, groupless)"
  shows "fst (snd (snd (GroupBy_ProcessMessage gs s msg))) =
           snd (collect_spec gs groups s1) @ (if groupless = [] then [] else [groupless]) \<and>
         (local_groups gs \<longrightarrow>
            map (\<lambda>a. fst (GroupBy_ProcessMessage gs s msg) ! a) groupless = map (\<lambda>a. s1 ! a) groupless)"
proof -
  have 1: "fst (snd (snd (GroupBy_ProcessMessage gs s msg))) =
           snd (collect_spec gs groups s1) @ (if groupless = [] then [] else [groupless])"
    using assms by (simp add: GroupBy_ProcessMessage_output combined_def split: prod.splits)
  have 2: "map (\<lambda>a. fst (GroupBy_ProcessMessage gs s msg) ! a) groupless = map (\<lambda>a. s1 ! a) groupless"
    if lg: "local_groups gs"
  proof -
    from route_fresh[OF assms]
    have l: "length s1 = length s + length msg"
      and st: "set (concat groups @ groupless) = {length s..<length s + length msg}"
      and di: "distinct (concat groups @ groupless)" by auto
    have A: "set groupless \<subseteq> {..<length s1}" using st l by auto
    have d: "set groupless \<inter> set (concat groups) = {}" using di by auto
    from combined_frame[OF assms lg A d] show ?thesis
      by (simp add: GroupBy_ProcessMessage_store)
  qed
  from 1 2 show ?thesis by blast
qed

text \<open>
  Claim C7. With local stages and a well-formed input batch, the store
  \<^verbatim>\<open>ProcessMessage\<close> leaves holds every part that existed on entry unchanged, the parts
  of the input batch among them, payload and metadata; the working batches and the
  residual batch that the routing builds hold only parts allocated by the routing, the
  duplicates.
\<close>

theorem C7_source_unchanged:
  assumes "wf_message s msg" and "local_groups gs"
  shows "take (length s) (fst (GroupBy_ProcessMessage gs s msg)) = s \<and>
         map (\<lambda>a. fst (GroupBy_ProcessMessage gs s msg) ! a) msg = map (\<lambda>a. s ! a) msg \<and>
         (\<forall>a\<in>set (concat (fst (snd (route gs s msg))) @ snd (snd (route gs s msg))). length s \<le> a)"
proof -
  obtain s1 groups groupless where r: "route gs s msg = (s1, groups, groupless)"
    by (cases "route gs s msg") auto
  let ?s' = "fst (GroupBy_ProcessMessage gs s msg)"
  from route_fresh[OF r]
  have l: "length s1 = length s + length msg" and p: "prefix s s1"
    and st: "set (concat groups @ groupless) = {length s..<length s + length msg}" by auto
  have A: "{..<length s} \<subseteq> {..<length s1}" using l by auto
  have "set (concat groups) \<subseteq> {length s..<length s + length msg}" using st by auto
  then have d: "{..<length s} \<inter> set (concat groups) = {}" by fastforce
  from combined_frame[OF r assms(2) A d]
  have l2: "length s1 \<le> length ?s'" and k: "\<forall>a<length s. ?s' ! a = s1 ! a"
    by (auto simp: GroupBy_ProcessMessage_store)
  have k1: "s1 ! a = s ! a" if "a < length s" for a
    using p that by (auto simp: prefix_def nth_append)
  have 1: "take (length s) ?s' = s"
    using l l2 k k1 by (intro nth_equalityI) auto
  have 2: "map (\<lambda>a. ?s' ! a) msg = map (\<lambda>a. s ! a) msg"
    using assms(1) k k1 by (auto simp: wf_message_def list_all_iff)
  have 3: "\<forall>a\<in>set (concat (fst (snd (route gs s msg))) @ snd (snd (route gs s msg))). length s \<le> a"
    using st r by simp
  from 1 2 3 show ?thesis by blast
qed

text \<open>
  Against claim C6 as stated: one group takes every part and its stage returns one batch
  without parts. The code forwards that batch; the collection of the non-empty batches
  is empty.
\<close>

theorem C6_counterexample:
  "fst (snd (snd (GroupBy_ProcessMessage hollow_groups foo_store foo_msg))) = [[]] \<and>
   snd (combined_nonempty hollow_groups foo_store foo_msg) = []"
  by (simp add: GroupBy_ProcessMessage_def combined_nonempty_def route_def route_part_def
      Part_Copy_def Lock_def hollow_groups_def empty_batch_def foo_msg_def log_response_def
      chain_spec_def stage_spec_def)

section \<open>The metadata stage: what an invocation does\<close>

lemma Get_okD1: "Get_ok L \<Longrightarrow> Get L i n = Some k \<Longrightarrow> k < n"
  by (auto simp: Get_ok_def)

lemma Get_okD2: "Get_ok L \<Longrightarrow> k < n \<Longrightarrow> Get L (int k) n = Some k"
  by (auto simp: Get_ok_def)

lemma edit_part_keep:
  assumes ok: "Get_ok L" and len: "length sc = b + n"
  shows "length (edit_part L p [b..<b + n] v sc i) = b + n"
    and "a < b \<Longrightarrow> edit_part L p [b..<b + n] v sc i ! a = sc ! a"
    and "k < n \<Longrightarrow> content (edit_part L p [b..<b + n] v sc i ! (b + k)) = content (sc ! (b + k))"
    and "k < n \<Longrightarrow> metadata (edit_part L p [b..<b + n] v sc i ! (b + k)) =
           (if Get L i n = Some k then fst (operator p (metadata (sc ! (b + k))) v)
            else metadata (sc ! (b + k)))"
proof -
  show "length (edit_part L p [b..<b + n] v sc i) = b + n"
    using len by (simp add: edit_part_def split: option.splits)
  show "edit_part L p [b..<b + n] v sc i ! a = sc ! a" if "a < b"
    using that len Get_okD1[OF ok, of i n]
    by (auto simp: edit_part_def split: option.splits)
  show "content (edit_part L p [b..<b + n] v sc i ! (b + k)) = content (sc ! (b + k))" if "k < n"
    using that len Get_okD1[OF ok, of i n]
    by (auto simp: edit_part_def nth_list_update split: option.splits)
  show "metadata (edit_part L p [b..<b + n] v sc i ! (b + k)) =
           (if Get L i n = Some k then fst (operator p (metadata (sc ! (b + k))) v)
            else metadata (sc ! (b + k)))" if "k < n"
    using that len Get_okD1[OF ok, of i n]
    by (auto simp: edit_part_def nth_list_update split: option.splits)
qed

lemma foldl_edit_part_keep:
  assumes ok: "Get_ok L" and len: "length s1 = b + n"
  shows "length (foldl (edit_part L p [b..<b + n] v) s1 ts) = b + n \<and>
         (\<forall>a<b. foldl (edit_part L p [b..<b + n] v) s1 ts ! a = s1 ! a) \<and>
         (\<forall>k<n. content (foldl (edit_part L p [b..<b + n] v) s1 ts ! (b + k)) = content (s1 ! (b + k)))"
proof (induction ts rule: rev_induct)
  case Nil
  then show ?case using len by simp
next
  case (snoc t ts)
  let ?sc = "foldl (edit_part L p [b..<b + n] v) s1 ts"
  from snoc.IH have l: "length ?sc = b + n" by blast
  from snoc.IH edit_part_keep(1,2,3)[OF ok l, where p = p and v = v and i = t] show ?case by simp
qed

lemma foldl_edit_part_metadata:
  assumes ok: "Get_ok L" and len: "length s1 = b + n"
    and idem: "\<And>m. fst (operator p (fst (operator p m v)) v) = fst (operator p m v)"
  shows "\<forall>k<n. metadata (foldl (edit_part L p [b..<b + n] v) s1 ts ! (b + k)) =
           (if \<exists>i\<in>set ts. Get L i n = Some k then fst (operator p (metadata (s1 ! (b + k))) v)
            else metadata (s1 ! (b + k)))"
proof (induction ts rule: rev_induct)
  case Nil
  then show ?case by simp
next
  case (snoc t ts)
  let ?sc = "foldl (edit_part L p [b..<b + n] v) s1 ts"
  have l: "length ?sc = b + n" using foldl_edit_part_keep[OF ok len] by blast
  show ?case
  proof (intro allI impI)
    fix k assume k: "k < n"
    show "metadata (foldl (edit_part L p [b..<b + n] v) s1 (ts @ [t]) ! (b + k)) =
           (if \<exists>i\<in>set (ts @ [t]). Get L i n = Some k then fst (operator p (metadata (s1 ! (b + k))) v)
            else metadata (s1 ! (b + k)))"
      using edit_part_keep(4)[OF ok l k, where p = p and v = v and i = t] snoc.IH[rule_format, OF k] idem
      by auto
  qed
qed

lemma Metadata_ProcessMessage_result:
  assumes ok: "Get_ok L"
  shows "\<exists>s'. Metadata_ProcessMessage L p s msg = (s', [[length s..<length s + length msg]], None) \<and>
           length s' = length s + length msg \<and> (\<forall>a<length s. s' ! a = s ! a) \<and>
           (\<forall>k<length msg. content (s' ! (length s + k)) = content (s ! (msg ! k)))"
proof -
  let ?s1 = "s @ map (\<lambda>a. s ! a) msg"
  have len: "length ?s1 = length s + length msg" by simp
  show ?thesis
    using foldl_edit_part_keep[OF ok len, of p]
    by (simp add: Metadata_ProcessMessage_def Message_Copy_def Let_def nth_append)
qed

lemma local_proc_Metadata: "Get_ok L \<Longrightarrow> local_proc (Metadata_ProcessMessage L p)"
  unfolding local_proc_def
proof (intro allI)
  fix s m
  assume ok: "Get_ok L"
  from Metadata_ProcessMessage_result[OF ok, of p s m]
  show "case Metadata_ProcessMessage L p s m of
          (s', out, r) \<Rightarrow>
            length s \<le> length s' \<and>
            (\<forall>a<length s. a \<notin> set m \<longrightarrow> s' ! a = s ! a) \<and>
            (\<forall>b\<in>set out. \<forall>a\<in>set b. a \<in> set m \<or> length s \<le> a)"
    by auto
qed

lemma Metadata_ProcessMessage_metadata:
  assumes ok: "Get_ok L" and wf: "wf_message s msg"
    and idem: "\<And>m v. fst (operator p (fst (operator p m v)) v) = fst (operator p m v)"
    and k: "k < length msg"
  shows "metadata (fst (Metadata_ProcessMessage L p s msg) ! (length s + k)) =
           (if targeted L (parts p) (length msg) k
            then fst (operator p (metadata (s ! (msg ! k))) (resolved_value L p s msg))
            else metadata (s ! (msg ! k)))"
proof -
  let ?s1 = "s @ map (\<lambda>a. s ! a) msg"
  have len: "length ?s1 = length s + length msg" by simp
  have v: "map (\<lambda>a. ?s1 ! a) msg = map (\<lambda>a. s ! a) msg"
    using wf by (simp add: wf_message_def list_all_iff nth_append)
  have all: "(\<exists>i\<in>set (map int [0..<length msg]). Get L i (length msg) = Some k)"
    using Get_okD2[OF ok k] k by auto
  show ?thesis
    using foldl_edit_part_metadata[OF ok len idem, rule_format, OF k] k all
    by (simp add: Metadata_ProcessMessage_def Message_Copy_def Let_def resolved_value_def
        targeted_def v)
qed

lemma getMetadataOperator_cases:
  "getMetadataOperator opStr key = Inr opr \<Longrightarrow>
     fst (opr m v) = configured_operation opStr key v m \<and> snd (opr m v) = None"
  by (auto simp: getMetadataOperator_def split: if_splits)
    (auto simp: configured_operation_def newMetadataSetOperator_def
      newMetadataDeleteAllOperator_def newMetadataDeletePrefixOperator_def Metadata_Set_def
      Metadata_Iter_Delete_def Metadata_Delete_def fun_eq_iff)

lemma configured_operation_idem:
  "configured_operation opStr key v (configured_operation opStr key v m) = configured_operation opStr key v m"
  by (auto simp: configured_operation_def fun_eq_iff)

lemma NewMetadata_Inr:
  assumes "NewMetadata L conf = Inr p"
  shows "fst (operator p m v) = configured_operation (Operator conf) (Key conf) v m"
    and "snd (operator p m v) = None" and "parts p = Parts conf"
    and "interpolate p = ContainsFunctionVariables L (Value conf)" and "valueBytes p = Value conf"
  using assms getMetadataOperator_cases[of "Operator conf" "Key conf"]
  by (auto simp: NewMetadata_def split: sum.splits)

lemma NewMetadata_resolved_value:
  "NewMetadata L conf = Inr p \<Longrightarrow> resolved_value L p s msg = configured_value L conf s msg"
  by (simp add: resolved_value_def configured_value_def NewMetadata_Inr(4,5))

lemma NewMetadata_Inl_iff:
  "(\<exists>e. NewMetadata L conf = Inl e) \<longleftrightarrow> Operator conf \<notin> {''set'', ''delete_all'', ''delete_prefix''}"
  by (auto simp: NewMetadata_def getMetadataOperator_def split: sum.splits if_splits)

section \<open>Responses and the stages of empty groups\<close>

lemma stage_spec_silenced: "stage_spec (silenced P) st = stage_spec P st"
proof -
  have "(\<lambda>(s, out) m. case silenced P s m of (s', produced, r) \<Rightarrow> (s', out @ produced)) =
        (\<lambda>(s, out) m. case P s m of (s', produced, r) \<Rightarrow> (s', out @ produced))"
    by (auto simp: fun_eq_iff silenced_def split: prod.splits)
  then show ?thesis by (simp add: stage_spec_def)
qed

lemma chain_spec_silenced: "chain_spec (map silenced Ps) st = chain_spec Ps st"
  by (simp add: chain_spec_def foldl_map stage_spec_silenced cong: if_cong)

lemma collect_spec_silenced:
  "collect_spec (map silence_group gs) bs s = collect_spec gs bs s"
  by (induction gs bs s rule: collect_spec.induct)
    (simp_all add: silence_group_def chain_spec_silenced split: prod.splits)

lemma first_pass_cong:
  "length gs' = length gs \<Longrightarrow> \<forall>i<length gs. Condition (gs' ! i) = Condition (gs ! i) \<Longrightarrow>
     first_pass gs' j v = first_pass gs j v"
proof (induction gs arbitrary: gs' j)
  case Nil
  then show ?case by simp
next
  case (Cons g gs)
  then obtain g' gs2 where gs': "gs' = g' # gs2" by (cases gs') auto
  have c: "Condition g' = Condition g" using Cons.prems(2)[rule_format, of 0] gs' by simp
  have l: "length gs2 = length gs" using Cons.prems(1) gs' by simp
  have "Condition (gs2 ! i) = Condition (gs ! i)" if "i < length gs" for i
    using Cons.prems(2)[rule_format, of "Suc i"] gs' that by simp
  then have "first_pass gs2 (Suc j) v = first_pass gs (Suc j) v"
    using Cons.IH[OF l] by blast
  then show ?case by (simp add: gs' c)
qed

lemma Iter_cong:
  "(\<And>i p st. route_part gs' msg i p st = route_part gs msg i p st) \<Longrightarrow>
     Iter gs' msg i ps st = Iter gs msg i ps st"
  by (induction ps arbitrary: i st) simp_all

lemma route_cong:
  assumes "length gs' = length gs" and "\<forall>i<length gs. Condition (gs' ! i) = Condition (gs ! i)"
  shows "route gs' s msg = route gs s msg"
proof -
  have rp: "route_part gs' msg i p st = route_part gs msg i p st" for i p st
    by (simp add: route_part_def first_pass_cong[OF assms])
  have "Iter gs' msg 0 msg st = Iter gs msg 0 msg st" for st
    by (rule Iter_cong) (rule rp)
  then show ?thesis using assms(1) by (simp add: route_def)
qed

lemma route_silenced: "route (map silence_group gs) s msg = route gs s msg"
  by (rule route_cong) (simp_all add: silence_group_def)

lemma combined_silenced: "combined (map silence_group gs) s msg = combined gs s msg"
  by (simp add: combined_def route_silenced collect_spec_silenced)

lemma GroupBy_ProcessMessage_by_combined:
  "(case GroupBy_ProcessMessage gs s msg of (s', lg, out, res) \<Rightarrow> (s', out, res)) =
     (if msg = [] then (s, [], Some NewAck)
      else if snd (combined gs s msg) = [] then (fst (combined gs s msg), [], Some NewAck)
      else (fst (combined gs s msg), snd (combined gs s msg), None))"
proof -
  obtain s' lg out res where g: "GroupBy_ProcessMessage gs s msg = (s', lg, out, res)"
    by (cases "GroupBy_ProcessMessage gs s msg") auto
  from GroupBy_ProcessMessage_combined[OF g] g show ?thesis
    by (auto split: if_splits)
qed

text \<open>
  Claim C8. Whatever the stages return, \<^verbatim>\<open>ProcessMessage\<close> returns either batches with a
  nil response or no batch with the acknowledgement, whose \<^verbatim>\<open>Error()\<close> is nil. The store,
  the batches and the response are those of the same groups with every stage's response
  taken away: a stage's error changes nothing but the log.
\<close>

theorem C8_stage_errors_not_fatal:
  "(case GroupBy_ProcessMessage gs s msg of
      (s', lg, out, res) \<Rightarrow> (out \<noteq> [] \<and> res = None) \<or> (out = [] \<and> res = Some NewAck)) \<and>
   Error NewAck = None \<and>
   (case GroupBy_ProcessMessage (map silence_group gs) s msg of (s', lg, out, res) \<Rightarrow> (s', out, res)) =
   (case GroupBy_ProcessMessage gs s msg of (s', lg, out, res) \<Rightarrow> (s', out, res))"
proof -
  obtain s' lg out res where g: "GroupBy_ProcessMessage gs s msg = (s', lg, out, res)"
    by (cases "GroupBy_ProcessMessage gs s msg") auto
  from GroupBy_ProcessMessage_combined[OF g] g
  have 1: "case GroupBy_ProcessMessage gs s msg of
      (s', lg, out, res) \<Rightarrow> (out \<noteq> [] \<and> res = None) \<or> (out = [] \<and> res = Some NewAck)"
    by (auto split: if_splits)
  have 2: "Error NewAck = None" by (simp add: NewAck_def)
  have 3: "(case GroupBy_ProcessMessage (map silence_group gs) s msg of (s', lg, out, res) \<Rightarrow> (s', out, res)) =
   (case GroupBy_ProcessMessage gs s msg of (s', lg, out, res) \<Rightarrow> (s', out, res))"
    by (simp only: GroupBy_ProcessMessage_by_combined combined_silenced)
  from 1 2 3 show ?thesis by blast
qed




section \<open>The scenarios, evaluated\<close>

lemma Get_ok_plain: "Get_ok plain_library"
  by (auto simp: Get_ok_def plain_library_def)

lemma local_groups_foo: "local_groups foo_groups"
  by (simp add: local_groups_def foo_groups_def local_proc_Metadata[OF Get_ok_plain])

lemma foldl_update_other:
  "a \<notin> set m \<Longrightarrow> foldl (\<lambda>s a. s[a := f (s ! a)]) s m ! a = s ! a"
  by (induction m arbitrary: s) auto

lemma foldl_update_length: "length (foldl (\<lambda>s a. s[a := f (s ! a)]) s m) = length s"
  by (induction m arbitrary: s) auto

lemma local_proc_scrub: "local_proc scrub"
  by (simp add: local_proc_def scrub_def foldl_update_other foldl_update_length)

lemma local_groups_scrub: "local_groups scrub_groups"
  by (simp add: local_groups_def scrub_groups_def local_proc_scrub)

lemma Metadata_foo:
  "Metadata_ProcessMessage plain_library set_grouping (foo_store @ foo_store) [3, 5] =
     (foo_store @ foo_store @
        [\<lparr>content = ''foo1'', metadata = [''grouping'' \<mapsto> ''foo'']\<rparr>,
         \<lparr>content = ''foo2'', metadata = [''grouping'' \<mapsto> ''foo'']\<rparr>],
      [[6, 7]], None)"
  by (simp add: Metadata_ProcessMessage_def Message_Copy_def edit_part_def plain_library_def
      set_grouping_def newMetadataSetOperator_def Metadata_Set_def foo_store_def
      upt_rec[of 0] upt_rec[of 1] upt_rec[of 2] upt_rec[of 6] upt_rec[of 7] upt_rec[of 8])

lemma GPM_foo:
  "GroupBy_ProcessMessage foo_groups foo_store foo_msg =
     (foo_store @ foo_store @
        [\<lparr>content = ''foo1'', metadata = [''grouping'' \<mapsto> ''foo'']\<rparr>,
         \<lparr>content = ''foo2'', metadata = [''grouping'' \<mapsto> ''foo'']\<rparr>],
      [], [[6, 7], [4]], None)"
proof -
  have "Processors (foo_groups ! 0) = [Metadata_ProcessMessage plain_library set_grouping]"
    by (simp add: foo_groups_def)
  then show ?thesis
    using route_foo Metadata_foo
    by (simp add: GroupBy_ProcessMessage_def foo_groups_def log_response_def foo_msg_def)
qed

lemma route_scrub: "route scrub_groups foo_store foo_msg = (foo_store @ foo_store, [[3, 5]], [4])"
  by (simp add: route_def route_part_def Part_Copy_def Lock_def scrub_groups_def foo_store_def
      foo_msg_def is_foo_def)

lemma GPM_scrub:
  "GroupBy_ProcessMessage scrub_groups foo_store foo_msg =
     (foo_store @
        [\<lparr>content = [], metadata = Map.empty\<rparr>,
         \<lparr>content = ''bar1'', metadata = Map.empty\<rparr>,
         \<lparr>content = [], metadata = Map.empty\<rparr>],
      [''Processor error: scrubbed''], [[3, 5], [4]], None)"
  using route_scrub
  by (simp add: GroupBy_ProcessMessage_def scrub_groups_def scrub_def log_response_def
      foo_msg_def foo_store_def)

lemma route_drop: "route drop_groups foo_store foo_msg = (foo_store @ foo_store, [[3, 4, 5]], [])"
  by (simp add: route_def route_part_def Part_Copy_def Lock_def drop_groups_def foo_store_def
      foo_msg_def)

lemma GPM_drop:
  "GroupBy_ProcessMessage drop_groups foo_store foo_msg = (foo_store @ foo_store, [], [], Some NewAck)"
  using route_drop
  by (simp add: GroupBy_ProcessMessage_def drop_groups_def drop_all_def log_response_def
      foo_msg_def NewAck_def)

text \<open>
  Against claim C4 as stated: the input batch has three parts, one group takes them all
  and its stage returns one batch without parts. The collection of step 6, the
  non-empty batches then the residual, is empty, and the code returns that batch with a
  nil response, not the acknowledgement.
\<close>

theorem C4_counterexample:
  "foo_msg \<noteq> [] \<and>
   snd (combined_nonempty hollow_groups foo_store foo_msg) = [] \<and>
   snd (snd (GroupBy_ProcessMessage hollow_groups foo_store foo_msg)) = ([[]], None)"
  by (simp add: GroupBy_ProcessMessage_def combined_nonempty_def route_def route_part_def
      Part_Copy_def Lock_def hollow_groups_def empty_batch_def foo_msg_def log_response_def
      chain_spec_def stage_spec_def)

theorem C4_nothing_to_forward_witness:
  "snd (snd (GroupBy_ProcessMessage foo_groups foo_store [])) = ([], Some NewAck) \<and>
   snd (combined drop_groups foo_store foo_msg) = [] \<and>
   snd (snd (GroupBy_ProcessMessage drop_groups foo_store foo_msg)) = ([], Some NewAck) \<and>
   snd (combined foo_groups foo_store foo_msg) = [[6, 7], [4]] \<and>
   snd (snd (GroupBy_ProcessMessage foo_groups foo_store foo_msg)) = ([[6, 7], [4]], None)"
proof -
  have d: "snd (combined drop_groups foo_store foo_msg) = []"
    using route_drop
    by (simp add: combined_def drop_groups_def drop_all_def chain_spec_def stage_spec_def)
  have f: "snd (combined foo_groups foo_store foo_msg) = [[6, 7], [4]]"
    using route_foo Metadata_foo
    by (simp add: combined_def foo_groups_def chain_spec_def stage_spec_def)
  have n: "foo_msg \<noteq> []" by (simp add: foo_msg_def)
  from C4_nothing_to_forward[of foo_groups foo_store "[]"]
    C4_nothing_to_forward[of drop_groups foo_store foo_msg]
    C4_nothing_to_forward[of foo_groups foo_store foo_msg] d f n
  show ?thesis by simp
qed

theorem C6_output_witness:
  "route foo_groups foo_store foo_msg = (foo_store @ foo_store, [[3, 5]], [4]) \<and>
   local_groups foo_groups \<and>
   snd (collect_spec foo_groups [[3, 5]] (foo_store @ foo_store)) = [[6, 7]] \<and>
   fst (snd (snd (GroupBy_ProcessMessage foo_groups foo_store foo_msg))) = [[6, 7], [4]] \<and>
   map (\<lambda>a. fst (GroupBy_ProcessMessage foo_groups foo_store foo_msg) ! a) [4] = [foo_store ! 1]"
proof -
  have c: "snd (collect_spec foo_groups [[3, 5]] (foo_store @ foo_store)) = [[6, 7]]"
    using Metadata_foo by (simp add: foo_groups_def chain_spec_def stage_spec_def)
  have e: "map (\<lambda>a. (foo_store @ foo_store) ! a) [4] = [foo_store ! 1]"
    by (simp add: foo_store_def)
  from C6_output[OF route_foo] local_groups_foo route_foo c e show ?thesis by simp
qed

theorem C7_source_unchanged_witness:
  "wf_message foo_store foo_msg \<and> local_groups scrub_groups \<and>
   map content (fst (GroupBy_ProcessMessage scrub_groups foo_store foo_msg)) =
     [''foo1'', ''bar1'', ''foo2'', [], ''bar1'', []] \<and>
   take (length foo_store) (fst (GroupBy_ProcessMessage scrub_groups foo_store foo_msg)) = foo_store \<and>
   map (\<lambda>a. fst (GroupBy_ProcessMessage scrub_groups foo_store foo_msg) ! a) foo_msg =
     map (\<lambda>a. foo_store ! a) foo_msg"
proof -
  have m: "map content (fst (GroupBy_ProcessMessage scrub_groups foo_store foo_msg)) =
     [''foo1'', ''bar1'', ''foo2'', [], ''bar1'', []]"
    unfolding GPM_scrub by (simp add: foo_store_def)
  from C7_source_unchanged[OF wf_foo local_groups_scrub] wf_foo local_groups_scrub m
  show ?thesis by blast
qed

theorem C8_stage_errors_not_fatal_witness:
  "GroupBy_ProcessMessage scrub_groups foo_store foo_msg =
     (foo_store @
        [\<lparr>content = [], metadata = Map.empty\<rparr>,
         \<lparr>content = ''bar1'', metadata = Map.empty\<rparr>,
         \<lparr>content = [], metadata = Map.empty\<rparr>],
      [''Processor error: scrubbed''], [[3, 5], [4]], None) \<and>
   (case GroupBy_ProcessMessage (map silence_group scrub_groups) foo_store foo_msg of
      (s', lg, out, res) \<Rightarrow> (s', out, res)) =
     (foo_store @
        [\<lparr>content = [], metadata = Map.empty\<rparr>,
         \<lparr>content = ''bar1'', metadata = Map.empty\<rparr>,
         \<lparr>content = [], metadata = Map.empty\<rparr>],
      [[3, 5], [4]], None)"
  using C8_stage_errors_not_fatal[of scrub_groups foo_store foo_msg] GPM_scrub by simp



section \<open>The metadata stage: the claims\<close>

text \<open>
  Claim C9. Construction fails exactly when the operator name is none of \<^verbatim>\<open>set\<close>,
  \<^verbatim>\<open>delete_all\<close>, \<^verbatim>\<open>delete_prefix\<close>. A constructed stage returns, on a well-formed batch,
  one batch of as many parts as its input and a nil response; the part at position \<open>k\<close>
  of the output has the payload of the input's part \<open>k\<close>, and its metadata is the
  configured operation applied to the metadata of the input's part \<open>k\<close> when \<open>k\<close> is in
  the index subset, and that metadata unchanged otherwise. Operator, key, index subset
  and value are those of the configuration the stage was constructed from, the value
  with its function variables replaced against the input batch. The operator never
  returns an error.
\<close>

theorem C9_metadata_stage:
  assumes "Get_ok L" and "wf_message s msg"
  shows "((\<exists>e. NewMetadata L conf = Inl e) \<longleftrightarrow>
            Operator conf \<notin> {''set'', ''delete_all'', ''delete_prefix''}) \<and>
         (\<forall>p. NewMetadata L conf = Inr p \<longrightarrow>
            (\<exists>s'. Metadata_ProcessMessage L p s msg =
                    (s', [[length s..<length s + length msg]], None) \<and>
                  length [length s..<length s + length msg] = length msg \<and>
                  (\<forall>k<length msg.
                     content (s' ! (length s + k)) = content (s ! (msg ! k)) \<and>
                     metadata (s' ! (length s + k)) =
                       (if targeted L (Parts conf) (length msg) k
                        then configured_operation (Operator conf) (Key conf)
                               (configured_value L conf s msg) (metadata (s ! (msg ! k)))
                        else metadata (s ! (msg ! k)))) \<and>
                  (\<forall>m v. snd (operator p m v) = None)))"
proof (intro conjI allI impI)
  show "(\<exists>e. NewMetadata L conf = Inl e) \<longleftrightarrow>
            Operator conf \<notin> {''set'', ''delete_all'', ''delete_prefix''}"
    by (rule NewMetadata_Inl_iff)
next
  fix p assume n: "NewMetadata L conf = Inr p"
  note c = NewMetadata_Inr[OF n]
  have idem: "fst (operator p (fst (operator p m v)) v) = fst (operator p m v)" for m v
    by (simp add: c(1) configured_operation_idem)
  from Metadata_ProcessMessage_result[OF assms(1), of p s msg]
  obtain s' where r: "Metadata_ProcessMessage L p s msg = (s', [[length s..<length s + length msg]], None)"
    and ct: "\<forall>k<length msg. content (s' ! (length s + k)) = content (s ! (msg ! k))"
    by blast
  have md: "metadata (s' ! (length s + k)) =
                       (if targeted L (Parts conf) (length msg) k
                        then configured_operation (Operator conf) (Key conf)
                               (configured_value L conf s msg) (metadata (s ! (msg ! k)))
                        else metadata (s ! (msg ! k)))" if "k < length msg" for k
    using Metadata_ProcessMessage_metadata[OF assms idem that] r
    by (simp add: c(1,3) NewMetadata_resolved_value[OF n])
  show "\<exists>s'. Metadata_ProcessMessage L p s msg =
                    (s', [[length s..<length s + length msg]], None) \<and>
                  length [length s..<length s + length msg] = length msg \<and>
                  (\<forall>k<length msg.
                     content (s' ! (length s + k)) = content (s ! (msg ! k)) \<and>
                     metadata (s' ! (length s + k)) =
                       (if targeted L (Parts conf) (length msg) k
                        then configured_operation (Operator conf) (Key conf)
                               (configured_value L conf s msg) (metadata (s ! (msg ! k)))
                        else metadata (s ! (msg ! k)))) \<and>
                  (\<forall>m v. snd (operator p m v) = None)"
    using r ct md c(2) by (intro exI[of _ s']) simp
qed

text \<open>
  Claim C10. On a well-formed batch the metadata stage leaves every part that existed
  on entry unchanged, the parts of its input batch among them, and returns a batch of
  newly allocated parts. For a constructed stage, every part in the index subset ends
  with the configured operation applied to the metadata its original had, with one
  value for all of them: the value resolved against the input batch as it stood on
  entry. For \<^verbatim>\<open>set\<close>, the key holds that value in every such part.
\<close>

theorem C10_metadata_input_unchanged:
  assumes "Get_ok L" and "wf_message s msg"
  shows "take (length s) (fst (Metadata_ProcessMessage L p s msg)) = s \<and>
         map (\<lambda>a. fst (Metadata_ProcessMessage L p s msg) ! a) msg = map (\<lambda>a. s ! a) msg \<and>
         (\<forall>b\<in>set (fst (snd (Metadata_ProcessMessage L p s msg))). \<forall>a\<in>set b. length s \<le> a) \<and>
         (NewMetadata L conf = Inr p \<longrightarrow>
            (\<forall>k<length msg. targeted L (Parts conf) (length msg) k \<longrightarrow>
               metadata (fst (Metadata_ProcessMessage L p s msg) ! (length s + k)) =
                 configured_operation (Operator conf) (Key conf)
                   (resolved_value L p s msg) (metadata (s ! (msg ! k)))) \<and>
            (Operator conf = ''set'' \<longrightarrow>
               (\<forall>k<length msg. targeted L (Parts conf) (length msg) k \<longrightarrow>
                  metadata (fst (Metadata_ProcessMessage L p s msg) ! (length s + k)) (Key conf) =
                    Some (resolved_value L p s msg))))"
proof -
  let ?s' = "fst (Metadata_ProcessMessage L p s msg)"
  from Metadata_ProcessMessage_result[OF assms(1), of p s msg]
  have r: "Metadata_ProcessMessage L p s msg = (?s', [[length s..<length s + length msg]], None)"
    and l: "length ?s' = length s + length msg"
    and k: "\<forall>a<length s. ?s' ! a = s ! a"
    by auto
  have 1: "take (length s) ?s' = s"
    using l k by (intro nth_equalityI) auto
  have 2: "map (\<lambda>a. ?s' ! a) msg = map (\<lambda>a. s ! a) msg"
    using assms(2) k by (auto simp: wf_message_def list_all_iff)
  have "fst (snd (Metadata_ProcessMessage L p s msg)) = [[length s..<length s + length msg]]"
    using r by (metis fst_conv snd_conv)
  then have 3: "\<forall>b\<in>set (fst (snd (Metadata_ProcessMessage L p s msg))). \<forall>a\<in>set b. length s \<le> a"
    by simp
  have 4: "(\<forall>k<length msg. targeted L (Parts conf) (length msg) k \<longrightarrow>
               metadata (?s' ! (length s + k)) =
                 configured_operation (Operator conf) (Key conf)
                   (resolved_value L p s msg) (metadata (s ! (msg ! k)))) \<and>
            (Operator conf = ''set'' \<longrightarrow>
               (\<forall>k<length msg. targeted L (Parts conf) (length msg) k \<longrightarrow>
                  metadata (?s' ! (length s + k)) (Key conf) = Some (resolved_value L p s msg)))"
    if n: "NewMetadata L conf = Inr p"
  proof -
    note c = NewMetadata_Inr[OF n]
    have idem: "fst (operator p (fst (operator p m v)) v) = fst (operator p m v)" for m v
      by (simp add: c(1) configured_operation_idem)
    have md: "metadata (?s' ! (length s + k)) =
                 configured_operation (Operator conf) (Key conf)
                   (resolved_value L p s msg) (metadata (s ! (msg ! k)))"
      if "k < length msg" and "targeted L (Parts conf) (length msg) k" for k
      using Metadata_ProcessMessage_metadata[OF assms idem that(1)] that(2) by (simp add: c(1,3))
    then show ?thesis by (auto simp: configured_operation_def)
  qed
  from 1 2 3 4 show ?thesis by blast
qed

lemma Get_ok_first: "Get_ok first_library"
  by (auto simp: Get_ok_def first_library_def)

lemma wf_tagged: "wf_message tagged_store [0, 1]"
  by (simp add: wf_message_def tagged_store_def)

theorem C9_metadata_stage_witness:
  "Get_ok plain_library \<and> wf_message tagged_store [0, 1] \<and>
   (\<exists>e. NewMetadata plain_library bogus_conf = Inl e) \<and>
   NewMetadata plain_library prefix_conf = Inr prefix_stage \<and>
   snd (Metadata_ProcessMessage plain_library prefix_stage tagged_store [0, 1]) = ([[2, 3]], None) \<and>
   content (fst (Metadata_ProcessMessage plain_library prefix_stage tagged_store [0, 1]) ! (length tagged_store + 0)) = ''a'' \<and>
   metadata (fst (Metadata_ProcessMessage plain_library prefix_stage tagged_store [0, 1]) ! (length tagged_store + 0)) ''grouping'' = None \<and>
   metadata (fst (Metadata_ProcessMessage plain_library prefix_stage tagged_store [0, 1]) ! (length tagged_store + 0)) ''other'' = Some ''x'' \<and>
   metadata (fst (Metadata_ProcessMessage plain_library prefix_stage tagged_store [0, 1]) ! (length tagged_store + 1)) ''grouping'' = Some ''bar'' \<and>
   NewMetadata first_library first_conf = Inr first_stage \<and>
   configured_value first_library first_conf foo_store foo_msg = ''unset'' \<and>
   metadata (fst (Metadata_ProcessMessage first_library first_stage foo_store foo_msg) ! (length foo_store + 1)) ''first'' = Some ''unset''"
proof -
  let ?r = "Metadata_ProcessMessage plain_library prefix_stage tagged_store [0, 1]"
  have n: "NewMetadata plain_library prefix_conf = Inr prefix_stage"
    by (simp add: NewMetadata_def getMetadataOperator_def prefix_conf_def prefix_stage_def
        plain_library_def)
  have b: "\<exists>e. NewMetadata plain_library bogus_conf = Inl e"
    using C9_metadata_stage[OF Get_ok_plain wf_tagged, of bogus_conf]
    by (simp add: bogus_conf_def)
  have t0: "targeted plain_library (Parts prefix_conf) (length [0, 1 :: nat]) 0"
    and t1: "\<not> targeted plain_library (Parts prefix_conf) (length [0, 1 :: nat]) 1"
    by (simp_all add: targeted_def plain_library_def prefix_conf_def)
  have v: "configured_value plain_library prefix_conf tagged_store [0, 1] = ''gr''"
    by (simp add: configured_value_def prefix_conf_def plain_library_def)
  have o: "Operator prefix_conf = ''delete_prefix''" by (simp add: prefix_conf_def)
  have len: "length tagged_store = 2" by (simp add: tagged_store_def)
  from C9_metadata_stage[OF Get_ok_plain wf_tagged, of prefix_conf] n
  obtain s' where r: "?r = (s', [[length tagged_store..<length tagged_store + length [0, 1 :: nat]]], None)"
    and q: "\<forall>k<length [0, 1 :: nat].
              content (s' ! (length tagged_store + k)) = content (tagged_store ! ([0, 1] ! k)) \<and>
              metadata (s' ! (length tagged_store + k)) =
                (if targeted plain_library (Parts prefix_conf) (length [0, 1 :: nat]) k
                 then configured_operation (Operator prefix_conf) (Key prefix_conf)
                        (configured_value plain_library prefix_conf tagged_store [0, 1])
                        (metadata (tagged_store ! ([0, 1] ! k)))
                 else metadata (tagged_store ! ([0, 1] ! k)))"
    by blast
  have s': "fst ?r = s'" using r by simp
  have 1: "snd ?r = ([[2, 3]], None)"
    using r len by (simp add: upt_rec[of 2] upt_rec[of 3] upt_rec[of 4])
  have e: "tagged_store ! ([0, 1] ! 0) =
             \<lparr>content = ''a'', metadata = [''grouping'' \<mapsto> ''foo'', ''other'' \<mapsto> ''x'']\<rparr>"
     "tagged_store ! ([0, 1] ! 1) = \<lparr>content = ''b'', metadata = [''grouping'' \<mapsto> ''bar'']\<rparr>"
    by (simp_all add: tagged_store_def)
  from q[rule_format, of 0] t0
  have 2: "content (s' ! (length tagged_store + 0)) = ''a''"
    and 3: "metadata (s' ! (length tagged_store + 0)) ''grouping'' = None"
    and 4: "metadata (s' ! (length tagged_store + 0)) ''other'' = Some ''x''"
    unfolding e v o by (simp_all add: configured_operation_def)
  from q[rule_format, of 1] t1
  have 5: "metadata (s' ! (length tagged_store + 1)) ''grouping'' = Some ''bar''"
    unfolding e by simp
  have n': "NewMetadata first_library first_conf = Inr first_stage"
    by (simp add: NewMetadata_def getMetadataOperator_def first_conf_def first_stage_def
        first_library_def)
  have v': "configured_value first_library first_conf foo_store foo_msg = ''unset''"
    by (simp add: configured_value_def first_conf_def first_library_def foo_store_def foo_msg_def)
  have t': "targeted first_library (Parts first_conf) (length foo_msg) 1"
    by (simp add: targeted_def first_conf_def)
  have k': "1 < length foo_msg" by (simp add: foo_msg_def)
  from C9_metadata_stage[OF Get_ok_first wf_foo, of first_conf] n'
  obtain s2 where r2: "Metadata_ProcessMessage first_library first_stage foo_store foo_msg =
        (s2, [[length foo_store..<length foo_store + length foo_msg]], None)"
    and q2: "\<forall>k<length foo_msg.
              content (s2 ! (length foo_store + k)) = content (foo_store ! (foo_msg ! k)) \<and>
              metadata (s2 ! (length foo_store + k)) =
                (if targeted first_library (Parts first_conf) (length foo_msg) k
                 then configured_operation (Operator first_conf) (Key first_conf)
                        (configured_value first_library first_conf foo_store foo_msg)
                        (metadata (foo_store ! (foo_msg ! k)))
                 else metadata (foo_store ! (foo_msg ! k)))"
    by blast
  have s2: "fst (Metadata_ProcessMessage first_library first_stage foo_store foo_msg) = s2"
    using r2 by simp
  from q2[rule_format, OF k'] t'
  have 6: "metadata (s2 ! (length foo_store + 1)) ''first'' = Some ''unset''"
    unfolding v' by (simp add: configured_operation_def first_conf_def)
  from Get_ok_plain wf_tagged b n 1 2 3 4 5 n' v' 6 show ?thesis unfolding s' s2 by blast
qed

theorem C10_metadata_input_unchanged_witness:
  "Get_ok first_library \<and> wf_message foo_store foo_msg \<and>
   NewMetadata first_library first_conf = Inr first_stage \<and>
   resolved_value first_library first_stage foo_store foo_msg = ''unset'' \<and>
   take (length foo_store) (fst (Metadata_ProcessMessage first_library first_stage foo_store foo_msg)) = foo_store \<and>
   metadata (fst (Metadata_ProcessMessage first_library first_stage foo_store foo_msg) ! (length foo_store + 0)) ''first'' = Some ''unset'' \<and>
   metadata (fst (Metadata_ProcessMessage first_library first_stage foo_store foo_msg) ! (length foo_store + 2)) ''first'' = Some ''unset''"
proof -
  have n: "NewMetadata first_library first_conf = Inr first_stage"
    by (simp add: NewMetadata_def getMetadataOperator_def first_conf_def first_stage_def
        first_library_def)
  have v: "resolved_value first_library first_stage foo_store foo_msg = ''unset''"
    by (simp add: resolved_value_def first_stage_def first_library_def foo_store_def foo_msg_def)
  have t: "targeted first_library (Parts first_conf) (length foo_msg) k" for k
    by (simp add: targeted_def first_conf_def)
  have o: "Operator first_conf = ''set''" and k: "Key first_conf = ''first''"
    by (simp_all add: first_conf_def)
  have l: "0 < length foo_msg" "2 < length foo_msg" by (simp_all add: foo_msg_def)
  note th = C10_metadata_input_unchanged[OF Get_ok_first wf_foo, of first_stage first_conf]
  from th have 1: "take (length foo_store)
      (fst (Metadata_ProcessMessage first_library first_stage foo_store foo_msg)) = foo_store"
    by blast
  from th n o have "\<forall>k<length foo_msg. targeted first_library (Parts first_conf) (length foo_msg) k \<longrightarrow>
      metadata (fst (Metadata_ProcessMessage first_library first_stage foo_store foo_msg) !
        (length foo_store + k)) (Key first_conf) =
      Some (resolved_value first_library first_stage foo_store foo_msg)"
    by blast
  with t l v k have 2:
    "metadata (fst (Metadata_ProcessMessage first_library first_stage foo_store foo_msg) ! (length foo_store + 0)) ''first'' = Some ''unset''"
    "metadata (fst (Metadata_ProcessMessage first_library first_stage foo_store foo_msg) ! (length foo_store + 2)) ''first'' = Some ''unset''"
    by auto
  from Get_ok_first wf_foo n v 1 2 show ?thesis by blast
qed

end
